theory Spec2Isabelle
  imports Main "HOL-Library.AList"
begin

section \<open>Dependency-ordered loader (pkg/kwokctl/snapshot/load.go)\<close>

subsection \<open>Data\<close>

text \<open>The struct \<open>uniqueKey\<close> of load.go; \<open>types.UID\<close> is a string.\<close>

record uniqueKey =
  APIVersion :: string
  Kind :: string
  Name :: string
  UID :: string

text \<open>\<open>metav1.OwnerReference\<close>, with the four fields the loader reads or writes.\<close>

record OwnerReference =
  ref_APIVersion :: string
  ref_Kind :: string
  ref_Name :: string
  ref_UID :: string

text \<open>
  \<open>unstructured.Unstructured\<close>: the metadata the loader reads through its getters, and
  the remaining attributes as an association list.
\<close>

record Unstructured =
  apiVersion :: string
  kind :: string
  namespace :: string
  name :: string
  uid :: string
  ownerReferences :: "OwnerReference list"
  attributes :: "(string \<times> string) list"

datatype GroupKind = GroupKind string string

datatype GroupVersionKind = GroupVersionKind string string string

datatype GroupVersionResource = GroupVersionResource string string string

text \<open>
  The errors of the write client as \<open>apierrors.IsAlreadyExists\<close> and
  \<open>apierrors.IsConflict\<close> tell them apart (both read the one status reason).
\<close>

datatype apiError = AlreadyExists | Conflict | OtherError

definition IsAlreadyExists :: "apiError \<Rightarrow> bool" where
  "IsAlreadyExists err = (err = AlreadyExists)"

definition IsConflict :: "apiError \<Rightarrow> bool" where
  "IsConflict err = (err = Conflict)"

text \<open>
  Objects are pointers in the source, shared between the caller and the pending lists and
  mutated in place, so the model keeps them in a heap (a list, an address is an index) and
  the pending lists hold addresses.

  What the loader does to the outside is recorded in a trace: every call of the write
  client with the object submitted and the answer, every log line, and every insertion
  into the pending map.
\<close>

datatype event =
    Enqueue uniqueKey nat
  | CallCreate nat GroupVersionResource string Unstructured "apiError + Unstructured"
  | CallUpdate nat GroupVersionResource string Unstructured "apiError + Unstructured"
  | LogSkipped string nat
  | LogInfo string nat
  | LogWarn string nat
  | LogError string nat

text \<open>
  The collaborators of the loader, fixed for one load: the fields \<open>filterMap\<close>,
  \<open>restMapper\<close> (its method \<open>ResourceFor\<close>) and \<open>dynClient\<close> (the methods
  \<open>Create\<close> and \<open>Update\<close> of the resource interface, acting on a cluster of type
  \<open>'c\<close>), the library method \<open>GroupVersionKind\<close> of an object, the error of the
  context at the n-th decoded object, and the helper \<open>clearUnstructured\<close>, which is
  called by \<open>apply\<close> and defined in another file of the package.
\<close>

record 'c env =
  filterMap :: "GroupKind set"
  objGroupVersionKind :: "Unstructured \<Rightarrow> GroupVersionKind"
  ResourceFor :: "GroupVersionResource \<Rightarrow> GroupVersionResource option"
  Create :: "GroupVersionResource \<Rightarrow> string \<Rightarrow> Unstructured \<Rightarrow> 'c \<Rightarrow> (apiError + Unstructured) \<times> 'c"
  Update :: "GroupVersionResource \<Rightarrow> string \<Rightarrow> Unstructured \<Rightarrow> 'c \<Rightarrow> (apiError + Unstructured) \<times> 'c"
  clearUnstructured :: "Unstructured \<Rightarrow> Unstructured"
  ctxErr :: "nat \<Rightarrow> bool"

text \<open>The mutable part: the maps \<open>exist\<close> and \<open>pending\<close> of the loader, the heap, the
  cluster behind the write client, and the trace.\<close>

record 'c loader =
  exist :: "uniqueKey \<rightharpoonup> string"
  pending :: "(uniqueKey \<times> nat list) list"
  heap :: "Unstructured list"
  cluster :: "'c"
  trace :: "event list"

definition newLoader :: "'c \<Rightarrow> 'c loader" where
  "newLoader c = \<lparr>exist = Map.empty, pending = [], heap = [], cluster = c, trace = []\<rparr>"

subsection \<open>Keys, owner references, filter\<close>

definition uniqueKeyFromOwnerReference :: "OwnerReference \<Rightarrow> uniqueKey" where
  "uniqueKeyFromOwnerReference ownerReference =
     \<lparr>APIVersion = ref_APIVersion ownerReference, Kind = ref_Kind ownerReference,
      Name = ref_Name ownerReference, UID = ref_UID ownerReference\<rparr>"

definition uniqueKeyFromMetadata :: "Unstructured \<Rightarrow> uniqueKey" where
  "uniqueKeyFromMetadata obj =
     \<lparr>APIVersion = apiVersion obj, Kind = kind obj, Name = name obj, UID = uid obj\<rparr>"

definition groupKindOf :: "GroupVersionKind \<Rightarrow> GroupKind" where
  "groupKindOf gvk = (case gvk of GroupVersionKind g v k \<Rightarrow> GroupKind g k)"

definition filterObj :: "'c env \<Rightarrow> Unstructured \<Rightarrow> bool" where
  "filterObj env obj = (groupKindOf (objGroupVersionKind env obj) \<in> filterMap env)"

definition hasAllOwnerReferences :: "(uniqueKey \<rightharpoonup> string) \<Rightarrow> Unstructured \<Rightarrow> bool" where
  "hasAllOwnerReferences ex obj =
     list_all (\<lambda>ownerReference. ex (uniqueKeyFromOwnerReference ownerReference) \<noteq> None)
       (ownerReferences obj)"

definition rewriteOwner :: "(uniqueKey \<rightharpoonup> string) \<Rightarrow> OwnerReference \<Rightarrow> OwnerReference" where
  "rewriteOwner ex ownerReference =
     (case ex (uniqueKeyFromOwnerReference ownerReference) of
        Some u \<Rightarrow> ownerReference\<lparr>ref_UID := u\<rparr>
      | None \<Rightarrow> ownerReference)"

definition updateOwnerReferences :: "(uniqueKey \<rightharpoonup> string) \<Rightarrow> Unstructured \<Rightarrow> Unstructured" where
  "updateOwnerReferences ex obj =
     (if ownerReferences obj = [] then obj
      else obj\<lparr>ownerReferences := map (rewriteOwner ex) (ownerReferences obj)\<rparr>)"

subsection \<open>apply\<close>

definition logged :: "event \<Rightarrow> 'c loader \<Rightarrow> 'c loader" where
  "logged e l = l\<lparr>trace := trace l @ [e]\<rparr>"

definition resourceOf :: "'c env \<Rightarrow> Unstructured \<Rightarrow> GroupVersionResource" where
  "resourceOf env obj =
     (case objGroupVersionKind env obj of
        GroupVersionKind g v k \<Rightarrow> GroupVersionResource g v (kind obj))"

text \<open>\<open>loader.apply\<close> on the object at address \<open>a\<close>; \<open>None\<close> is the nil result.\<close>

definition applyObj :: "'c env \<Rightarrow> nat \<Rightarrow> 'c loader \<Rightarrow> Unstructured option \<times> 'c loader" where
  "applyObj env a l =
     (case ResourceFor env (resourceOf env (heap l ! a)) of
        None \<Rightarrow> (None, logged (LogError ''failed to get resource'' a) l)
      | Some gvr \<Rightarrow>
          (let obj = clearUnstructured env (heap l ! a);
               l1 = l\<lparr>heap := (heap l)[a := obj]\<rparr>;
               ns = namespace obj
           in case Create env gvr ns obj (cluster l1) of
                (Inr newObj, c1) \<Rightarrow>
                  (Some newObj,
                   logged (LogInfo ''created'' a)
                     (logged (CallCreate a gvr ns obj (Inr newObj)) (l1\<lparr>cluster := c1\<rparr>)))
              | (Inl err, c1) \<Rightarrow>
                  (let l2 = logged (CallCreate a gvr ns obj (Inl err)) (l1\<lparr>cluster := c1\<rparr>)
                   in if \<not> IsAlreadyExists err
                      then (None, logged (LogError ''failed to create resource'' a) l2)
                      else
                        (case Update env gvr ns obj (cluster l2) of
                           (Inr newObj, c2) \<Rightarrow>
                             (Some newObj,
                              logged (LogInfo ''updated'' a)
                                (logged (CallUpdate a gvr ns obj (Inr newObj)) (l2\<lparr>cluster := c2\<rparr>)))
                         | (Inl err2, c2) \<Rightarrow>
                             (let l3 = logged (CallUpdate a gvr ns obj (Inl err2)) (l2\<lparr>cluster := c2\<rparr>)
                              in if IsConflict err2
                                 then (None, logged (LogWarn ''conflict'' a) l3)
                                 else (None, logged (LogError ''failed to update resource'' a) l3))))))"

subsection \<open>load\<close>

definition pendingFor :: "(uniqueKey \<times> nat list) list \<Rightarrow> uniqueKey \<Rightarrow> nat list" where
  "pendingFor p key = (case map_of p key of None \<Rightarrow> [] | Some objs \<Rightarrow> objs)"

text \<open>The loop over the owner references of lines 140 to 146: the flag \<open>allExist\<close> and
  the loader after it.\<close>

primrec waitForOwners :: "nat \<Rightarrow> OwnerReference list \<Rightarrow> bool \<Rightarrow> 'c loader \<Rightarrow> bool \<times> 'c loader" where
  "waitForOwners a [] allExist l = (allExist, l)"
| "waitForOwners a (ownerReference # rest) allExist l =
     (let key = uniqueKeyFromOwnerReference ownerReference
      in if exist l key = None
         then waitForOwners a rest False
                (logged (Enqueue key a)
                   (l\<lparr>pending := AList.update key (pendingFor (pending l) key @ [a]) (pending l)\<rparr>))
         else waitForOwners a rest allExist l)"

text \<open>The loop over the pending objects of lines 168 to 181.\<close>

primrec applyPending :: "'c env \<Rightarrow> nat list \<Rightarrow> 'c loader \<Rightarrow> 'c loader" where
  "applyPending env [] l = l"
| "applyPending env (pendingObj # rest) l =
     (if length (ownerReferences (heap l ! pendingObj)) = 1
         \<or> hasAllOwnerReferences (exist l) (heap l ! pendingObj)
      then
        (let l1 = l\<lparr>heap := (heap l)[pendingObj := updateOwnerReferences (exist l) (heap l ! pendingObj)]\<rparr>
         in case applyObj env pendingObj l1 of
              (Some newObj, l2) \<Rightarrow>
                applyPending env rest
                  (l2\<lparr>exist := (exist l2)(uniqueKeyFromMetadata (heap l2 ! pendingObj) \<mapsto> uid newObj)\<rparr>)
            | (None, l2) \<Rightarrow> applyPending env rest l2)
      else applyPending env rest l)"

text \<open>Lines 166 to 184, for the key just recorded.\<close>

definition cascade :: "'c env \<Rightarrow> uniqueKey \<Rightarrow> 'c loader \<Rightarrow> 'c loader" where
  "cascade env key l =
     (case map_of (pending l) key of
        None \<Rightarrow> l
      | Some pendingObjs \<Rightarrow>
          (let l1 = applyPending env pendingObjs l
           in l1\<lparr>pending := AList.delete key (pending l1)\<rparr>))"

text \<open>Lines 156 to 184.\<close>

definition applyAndRecord :: "'c env \<Rightarrow> nat \<Rightarrow> 'c loader \<Rightarrow> 'c loader" where
  "applyAndRecord env a l =
     (case applyObj env a l of
        (None, l1) \<Rightarrow> l1
      | (Some newObj, l1) \<Rightarrow>
          (let key = uniqueKeyFromMetadata (heap l1 ! a)
           in cascade env key (l1\<lparr>exist := (exist l1)(key \<mapsto> uid newObj)\<rparr>)))"

definition load :: "'c env \<Rightarrow> nat \<Rightarrow> 'c loader \<Rightarrow> 'c loader" where
  "load env a l =
     (if ownerReferences (heap l ! a) \<noteq> []
      then
        (case waitForOwners a (ownerReferences (heap l ! a)) True l of
           (allExist, l1) \<Rightarrow>
             if \<not> allExist then l1
             else applyAndRecord env a
                    (l1\<lparr>heap := (heap l1)[a := updateOwnerReferences (exist l1) (heap l1 ! a)]\<rparr>))
      else applyAndRecord env a l)"

subsection \<open>Load\<close>

datatype document = Malformed | Document Unstructured

datatype loadError = ContextError | DecodeError

text \<open>
  Modelled from the spec: the streaming decoder of pkg/utils/yaml, which is not among the
  sources. It hands the objects of the stream to the callback one at a time, stops with
  the callback's error, and fails at the first malformed document.
\<close>

fun Decode :: "(Unstructured \<Rightarrow> 's \<Rightarrow> loadError option \<times> 's) \<Rightarrow> document list \<Rightarrow> 's \<Rightarrow> loadError option \<times> 's" where
  "Decode f [] s = (None, s)"
| "Decode f (Malformed # docs) s = (Some DecodeError, s)"
| "Decode f (Document obj # docs) s =
     (case f obj s of
        (Some err, s1) \<Rightarrow> (Some err, s1)
      | (None, s1) \<Rightarrow> Decode f docs s1)"

text \<open>The callback of lines 103 to 118; the decoded object gets a fresh address.\<close>

definition visit :: "'c env \<Rightarrow> Unstructured \<Rightarrow> 'c loader \<Rightarrow> loadError option \<times> 'c loader" where
  "visit env obj l =
     (if ctxErr env (length (heap l)) then (Some ContextError, l)
      else
        (let a = length (heap l);
             l1 = l\<lparr>heap := heap l @ [obj]\<rparr>
         in if \<not> filterObj env obj
            then (None, logged (LogSkipped ''filtered'' a) l1)
            else (None, load env a l1)))"

text \<open>The report of lines 124 to 132. A Go map is walked in no fixed order; the model
  walks the association list in its own order.\<close>

definition missingOwnerReport :: "(uniqueKey \<times> nat list) list \<Rightarrow> event list" where
  "missingOwnerReport p = concat (map (\<lambda>(key, pendingObjs). map (LogSkipped ''missing owner'') pendingObjs) p)"

definition Load :: "'c env \<Rightarrow> document list \<Rightarrow> 'c loader \<Rightarrow> loadError option \<times> 'c loader" where
  "Load env docs l =
     (case Decode (visit env) docs l of
        (Some err, l1) \<Rightarrow> (Some err, l1)
      | (None, l1) \<Rightarrow> (None, l1\<lparr>trace := trace l1 @ missingOwnerReport (pending l1)\<rparr>))"

subsection \<open>Reading the trace\<close>

text \<open>The address of the object an event hands to the write client.\<close>

fun submittedAddr :: "event \<Rightarrow> nat option" where
  "submittedAddr (CallCreate a gvr ns obj r) = Some a"
| "submittedAddr (CallUpdate a gvr ns obj r) = Some a"
| "submittedAddr (Enqueue key a) = None"
| "submittedAddr (LogSkipped msg a) = None"
| "submittedAddr (LogInfo msg a) = None"
| "submittedAddr (LogWarn msg a) = None"
| "submittedAddr (LogError msg a) = None"

text \<open>The addresses submitted to the write client, in the order of the calls.\<close>

definition submitted :: "event list \<Rightarrow> nat list" where
  "submitted es = List.map_filter submittedAddr es"

text \<open>The address of the object an event puts into the pending map.\<close>

fun enqueuedAddr :: "event \<Rightarrow> nat option" where
  "enqueuedAddr (Enqueue key a) = Some a"
| "enqueuedAddr (CallCreate a gvr ns obj r) = None"
| "enqueuedAddr (CallUpdate a gvr ns obj r) = None"
| "enqueuedAddr (LogSkipped msg a) = None"
| "enqueuedAddr (LogInfo msg a) = None"
| "enqueuedAddr (LogWarn msg a) = None"
| "enqueuedAddr (LogError msg a) = None"

definition enqueued :: "event list \<Rightarrow> nat list" where
  "enqueued es = List.map_filter enqueuedAddr es"

text \<open>The addresses held in the pending map, over all keys.\<close>

definition pendingAddrs :: "(uniqueKey \<times> nat list) list \<Rightarrow> nat list" where
  "pendingAddrs p = concat (map snd p)"

text \<open>The objects a stream yields before its first malformed document; the n-th of them
  gets the address n in a loader that starts with an empty heap.\<close>

fun decoded :: "document list \<Rightarrow> Unstructured list" where
  "decoded [] = []"
| "decoded (Malformed # docs) = []"
| "decoded (Document obj # docs) = obj # decoded docs"

subsection \<open>An example cluster\<close>

text \<open>
  A cluster that remembers the names it holds: a create of a new name succeeds and assigns
  a fresh identifier, a create of a known name answers "already exists", an update of a
  known name succeeds. The example \<open>clearUnstructured\<close> drops the attributes and keeps
  the identity of the object.
\<close>

definition exampleCreate :: "GroupVersionResource \<Rightarrow> string \<Rightarrow> Unstructured \<Rightarrow> string list \<Rightarrow> (apiError + Unstructured) \<times> string list" where
  "exampleCreate gvr ns obj c =
     (if name obj \<in> set c then (Inl AlreadyExists, c)
      else (Inr (obj\<lparr>uid := ''new-'' @ name obj\<rparr>), name obj # c))"

definition exampleUpdate :: "GroupVersionResource \<Rightarrow> string \<Rightarrow> Unstructured \<Rightarrow> string list \<Rightarrow> (apiError + Unstructured) \<times> string list" where
  "exampleUpdate gvr ns obj c =
     (if name obj \<in> set c then (Inr (obj\<lparr>uid := ''new-'' @ name obj\<rparr>), c)
      else (Inl OtherError, c))"

definition exampleEnv :: "string list env" where
  "exampleEnv =
     \<lparr>filterMap = {GroupKind '''' ''Pod''},
      objGroupVersionKind = (\<lambda>obj. GroupVersionKind '''' (apiVersion obj) (kind obj)),
      ResourceFor = (\<lambda>gvr. Some gvr),
      Create = exampleCreate,
      Update = exampleUpdate,
      clearUnstructured = (\<lambda>obj. obj\<lparr>attributes := []\<rparr>),
      ctxErr = (\<lambda>n. False)\<rparr>"

definition exampleObj :: "string \<Rightarrow> string \<Rightarrow> string \<Rightarrow> OwnerReference list \<Rightarrow> Unstructured" where
  "exampleObj k n u refs =
     \<lparr>apiVersion = ''v1'', kind = k, namespace = ''default'', name = n, uid = u,
      ownerReferences = refs, attributes = [(''resourceVersion'', ''7'')]\<rparr>"

definition exampleRef :: "string \<Rightarrow> string \<Rightarrow> string \<Rightarrow> OwnerReference" where
  "exampleRef k n u = \<lparr>ref_APIVersion = ''v1'', ref_Kind = k, ref_Name = n, ref_UID = u\<rparr>"

text \<open>A has no owner, B is owned by A, C is owned by B.\<close>

definition objA :: Unstructured where
  "objA = exampleObj ''Pod'' ''a'' ''uid-a'' []"

definition objB :: Unstructured where
  "objB = exampleObj ''Pod'' ''b'' ''uid-b'' [exampleRef ''Pod'' ''a'' ''uid-a'']"

definition objC :: Unstructured where
  "objC = exampleObj ''Pod'' ''c'' ''uid-c'' [exampleRef ''Pod'' ''b'' ''uid-b'']"

section \<open>Versioned cache (pkg/config/resources/dynamic.go)\<close>

text \<open>The fields of \<open>dynamicGetter\<close> that the mutex guards.\<close>

record 'o dynamicGetter =
  currentVer :: string
  data :: 'o

text \<open>
  \<open>updateAndReturn\<close>, the body under the write lock, with the content of the store at
  that moment. The third component lists the arguments of the calls of \<open>convertFunc\<close>
  made, so its length is the number of executions.
\<close>

definition updateAndReturn :: "('t list \<Rightarrow> 'o) \<Rightarrow> string \<Rightarrow> 't list \<Rightarrow> 'o dynamicGetter \<Rightarrow> 'o \<times> 'o dynamicGetter \<times> 't list list" where
  "updateAndReturn convertFunc latestVer list c =
     (if latestVer = currentVer c then (data c, c, [])
      else (let d = convertFunc list
            in (d, c\<lparr>data := d, currentVer := latestVer\<rparr>, [list])))"

text \<open>
  \<open>Get\<close> with the version \<open>latestVer\<close> it read from the controller. Between the
  release of the read lock and the acquisition of the write lock other calls may run, so
  the getter under the read lock (\<open>c\<close>) and the getter under the write lock (\<open>c'\<close>)
  are two arguments; a call that runs alone has \<open>c' = c\<close>. The result is the value
  returned, the getter left behind, and the calls of \<open>convertFunc\<close>.
\<close>

definition Get :: "('t list \<Rightarrow> 'o) \<Rightarrow> string \<Rightarrow> 't list \<Rightarrow> 'o dynamicGetter \<Rightarrow> 'o dynamicGetter \<Rightarrow> 'o \<times> 'o dynamicGetter \<times> 't list list" where
  "Get convertFunc latestVer list c c' =
     (if latestVer = currentVer c then (data c, c, [])
      else updateAndReturn convertFunc latestVer list c')"

subsection \<open>Concurrent calls of Get\<close>

text \<open>
  A call of \<open>Get\<close> that has read \<open>latestVer\<close> is about to take the read lock, or has
  left the fast path and is about to take the write lock, or has returned. Each of the two
  locked sections is one atomic step on the shared getter.
\<close>

datatype 'o getCall = AtRLock string | AtLock string | Returned 'o

record ('o, 't) shared =
  getter :: "'o dynamicGetter"
  store :: "'t list"
  conversions :: nat

fun stepCall :: "('t list \<Rightarrow> 'o) \<Rightarrow> 'o getCall \<Rightarrow> ('o, 't) shared \<Rightarrow> 'o getCall \<times> ('o, 't) shared" where
  "stepCall convertFunc (AtRLock latestVer) w =
     (if latestVer = currentVer (getter w) then (Returned (data (getter w)), w)
      else (AtLock latestVer, w))"
| "stepCall convertFunc (AtLock latestVer) w =
     (case updateAndReturn convertFunc latestVer (store w) (getter w) of
        (d, c, calls) \<Rightarrow>
          (Returned d, w\<lparr>getter := c, conversions := conversions w + length calls\<rparr>))"
| "stepCall convertFunc (Returned d) w = (Returned d, w)"

text \<open>A schedule interleaves the steps of the calls with the updates of the store by the
  background feed.\<close>

datatype 't action = Run nat | Feed "'t list"

fun run :: "('t list \<Rightarrow> 'o) \<Rightarrow> 't action list \<Rightarrow> 'o getCall list \<times> ('o, 't) shared \<Rightarrow> 'o getCall list \<times> ('o, 't) shared" where
  "run convertFunc [] cfg = cfg"
| "run convertFunc (Feed xs # sched) (calls, w) = run convertFunc sched (calls, w\<lparr>store := xs\<rparr>)"
| "run convertFunc (Run i # sched) (calls, w) =
     (if i < length calls
      then (case stepCall convertFunc (calls ! i) w of
              (c, w1) \<Rightarrow> run convertFunc sched (calls[i := c], w1))
      else run convertFunc sched (calls, w))"

definition hasReturned :: "'o getCall \<Rightarrow> bool" where
  "hasReturned c = (case c of Returned d \<Rightarrow> True | AtRLock v \<Rightarrow> False | AtLock v \<Rightarrow> False)"

section \<open>Examples and proof devices\<close>

text \<open>D is owned by A and by an object X that is not in the stream; the loader
  \<open>waitingForX\<close> has recorded A and still holds D under the key of A.\<close>

definition objD :: Unstructured where
  "objD = exampleObj ''Pod'' ''d'' ''uid-d''
            [exampleRef ''Pod'' ''a'' ''uid-a'', exampleRef ''Pod'' ''x'' ''uid-x'']"

definition waitingForX :: "string list loader" where
  "waitingForX =
     \<lparr>exist = [uniqueKeyFromOwnerReference (exampleRef ''Pod'' ''a'' ''uid-a'') \<mapsto> ''new-a''],
      pending = [(uniqueKeyFromOwnerReference (exampleRef ''Pod'' ''a'' ''uid-a''), [0]),
                 (uniqueKeyFromOwnerReference (exampleRef ''Pod'' ''x'' ''uid-x''), [0])],
      heap = [objD], cluster = [''a''], trace = []\<rparr>"

text \<open>An environment whose write client gives fixed answers.\<close>

definition answeringEnv :: "(apiError + Unstructured) \<Rightarrow> (apiError + Unstructured) \<Rightarrow> string list env" where
  "answeringEnv createAnswer updateAnswer =
     exampleEnv\<lparr>Create := (\<lambda>gvr ns obj c. (createAnswer, c)),
                Update := (\<lambda>gvr ns obj c. (updateAnswer, c))\<rparr>"




text \<open>S is a Service owned by A; the example filter admits Pods only.\<close>

definition objS :: Unstructured where
  "objS = exampleObj ''Service'' ''s'' ''uid-s'' [exampleRef ''Pod'' ''a'' ''uid-a'']"

subsection \<open>More readings of the trace\<close>

text \<open>What a successful create or update assigns: the key of the object as it was
  submitted and the identifier of the object the cluster returned.\<close>

fun assignment :: "event \<Rightarrow> (uniqueKey \<times> string) option" where
  "assignment (CallCreate a gvr ns obj r) =
     (case r of Inr newObj \<Rightarrow> Some (uniqueKeyFromMetadata obj, uid newObj) | Inl err \<Rightarrow> None)"
| "assignment (CallUpdate a gvr ns obj r) =
     (case r of Inr newObj \<Rightarrow> Some (uniqueKeyFromMetadata obj, uid newObj) | Inl err \<Rightarrow> None)"
| "assignment (Enqueue key a) = None"
| "assignment (LogSkipped msg a) = None"
| "assignment (LogInfo msg a) = None"
| "assignment (LogWarn msg a) = None"
| "assignment (LogError msg a) = None"

definition assignments :: "event list \<Rightarrow> (uniqueKey \<times> string) list" where
  "assignments es = List.map_filter assignment es"

text \<open>Recording a list of assignments in a map, one after the other.\<close>

definition recordAll :: "(uniqueKey \<rightharpoonup> string) \<Rightarrow> (uniqueKey \<times> string) list \<Rightarrow> (uniqueKey \<rightharpoonup> string)" where
  "recordAll ex kvs = fold (\<lambda>kv m. m(fst kv \<mapsto> snd kv)) kvs ex"

text \<open>The address and the object of every call of the write client.\<close>

fun submission :: "event \<Rightarrow> (nat \<times> Unstructured) option" where
  "submission (CallCreate a gvr ns obj r) = Some (a, obj)"
| "submission (CallUpdate a gvr ns obj r) = Some (a, obj)"
| "submission (Enqueue key a) = None"
| "submission (LogSkipped msg a) = None"
| "submission (LogInfo msg a) = None"
| "submission (LogWarn msg a) = None"
| "submission (LogError msg a) = None"

definition submissions :: "event list \<Rightarrow> (nat \<times> Unstructured) list" where
  "submissions es = List.map_filter submission es"

text \<open>The addresses logged as skipped for a missing owner.\<close>

fun skippedAddr :: "event \<Rightarrow> nat option" where
  "skippedAddr (LogSkipped msg a) = (if msg = ''missing owner'' then Some a else None)"
| "skippedAddr (CallCreate a gvr ns obj r) = None"
| "skippedAddr (CallUpdate a gvr ns obj r) = None"
| "skippedAddr (Enqueue key a) = None"
| "skippedAddr (LogInfo msg a) = None"
| "skippedAddr (LogWarn msg a) = None"
| "skippedAddr (LogError msg a) = None"

definition reportedMissing :: "event list \<Rightarrow> nat list" where
  "reportedMissing es = List.map_filter skippedAddr es"

subsection \<open>The steps of a load\<close>

text \<open>
  For the proofs a load is cut into steps. \<open>alloc\<close> gives a decoded object its address.
  \<open>recordApplied\<close> is what both line 153 to 164 and line 172 to 179 do to one object:
  rewrite its owner references, apply it, and record its key when that succeeded.
\<close>

definition alloc :: "Unstructured \<Rightarrow> 'c loader \<Rightarrow> 'c loader" where
  "alloc obj l = l\<lparr>heap := heap l @ [obj]\<rparr>"

definition recordApplied :: "'c env \<Rightarrow> nat \<Rightarrow> 'c loader \<Rightarrow> 'c loader" where
  "recordApplied env a l =
     (case applyObj env a (l\<lparr>heap := (heap l)[a := updateOwnerReferences (exist l) (heap l ! a)]\<rparr>) of
        (None, l2) \<Rightarrow> l2
      | (Some newObj, l2) \<Rightarrow>
          l2\<lparr>exist := (exist l2)(uniqueKeyFromMetadata (heap l2 ! a) \<mapsto> uid newObj)\<rparr>)"

text \<open>
  A step of the load of the stream \<open>objs\<close>: the next object is filtered out (\<open>skip\<close>),
  is queued under its missing owners (\<open>wait\<close>) or is applied at once (\<open>fresh\<close>); an
  object pending on a recorded key is found ready and applied (\<open>dependent\<close>); the entry
  of a recorded key is deleted (\<open>discard\<close>).
\<close>

inductive step :: "'c env \<Rightarrow> Unstructured list \<Rightarrow> 'c loader \<Rightarrow> 'c loader \<Rightarrow> bool"
  for env :: "'c env" and objs :: "Unstructured list" where
  skip: "length (heap l) < length objs \<Longrightarrow> \<not> filterObj env (objs ! length (heap l)) \<Longrightarrow>
         step env objs l (logged (LogSkipped ''filtered'' (length (heap l))) (alloc (objs ! length (heap l)) l))"
| wait: "length (heap l) < length objs \<Longrightarrow> filterObj env (objs ! length (heap l)) \<Longrightarrow>
         \<not> hasAllOwnerReferences (exist l) (objs ! length (heap l)) \<Longrightarrow>
         step env objs l
           (snd (waitForOwners (length (heap l)) (ownerReferences (objs ! length (heap l))) True
                   (alloc (objs ! length (heap l)) l)))"
| fresh: "length (heap l) < length objs \<Longrightarrow> filterObj env (objs ! length (heap l)) \<Longrightarrow>
         hasAllOwnerReferences (exist l) (objs ! length (heap l)) \<Longrightarrow>
         step env objs l (recordApplied env (length (heap l)) (alloc (objs ! length (heap l)) l))"
| dependent: "exist l key \<noteq> None \<Longrightarrow> a \<in> set (pendingFor (pending l) key) \<Longrightarrow>
         length (ownerReferences (heap l ! a)) = 1 \<or> hasAllOwnerReferences (exist l) (heap l ! a) \<Longrightarrow>
         step env objs l (recordApplied env a l)"
| discard: "exist l key \<noteq> None \<Longrightarrow>
         step env objs l (l\<lparr>pending := AList.delete key (pending l)\<rparr>)"

text \<open>
  What holds after every step, with \<open>objs\<close> the objects as decoded: addresses in the
  trace and in the pending map are allocated and passed the filter; an object is changed
  or submitted only once all its owners are recorded; an object is pending only under
  keys of its own owner references, and under each such key that is not recorded; it is
  pending at most once per owner reference; \<open>exist\<close> is what the successful calls
  assigned; and no missing owner has been reported yet.
\<close>

definition loaderInv :: "'c env \<Rightarrow> Unstructured list \<Rightarrow> 'c loader \<Rightarrow> bool" where
  "loaderInv env objs l \<longleftrightarrow>
     length (heap l) \<le> length objs
     \<and> (\<forall>a \<in> set (submitted (trace l)) \<union> set (enqueued (trace l)) \<union> set (pendingAddrs (pending l)).
          a < length (heap l) \<and> filterObj env (objs ! a))
     \<and> (\<forall>a < length (heap l).
          heap l ! a = objs ! a \<or> hasAllOwnerReferences (exist l) (objs ! a))
     \<and> (\<forall>a \<in> set (submitted (trace l)). hasAllOwnerReferences (exist l) (objs ! a))
     \<and> (\<forall>k a. a \<in> set (pendingFor (pending l) k) \<longrightarrow>
          k \<in> uniqueKeyFromOwnerReference ` set (ownerReferences (objs ! a)))
     \<and> (\<forall>a < length (heap l). filterObj env (objs ! a) \<longrightarrow>
          (\<forall>r \<in> set (ownerReferences (objs ! a)).
             exist l (uniqueKeyFromOwnerReference r) = None \<longrightarrow>
             a \<in> set (pendingFor (pending l) (uniqueKeyFromOwnerReference r))))
     \<and> (\<forall>a. count_list (pendingAddrs (pending l)) a \<le> length (ownerReferences (objs ! a)))
     \<and> exist l = recordAll Map.empty (assignments (trace l))
     \<and> reportedMissing (trace l) = []"


text \<open>A getter that has computed its value under the version v1, and a schedule of two
  calls and one update of the store.\<close>

definition exampleShared :: "(nat, bool) shared" where
  "exampleShared = \<lparr>getter = \<lparr>currentVer = ''v1'', data = 0\<rparr>, store = [True], conversions = 0\<rparr>"

definition exampleSchedule :: "bool action list" where
  "exampleSchedule = [Run 0, Run 1, Feed [True, False], Run 1, Run 0]"

section \<open>The loader: properties\<close>

text \<open>
  C1. For the stream C, B, A the loader creates A, then B with its owner reference
  rewritten, and stops there: the loop over the pending objects of A applies B and
  records its key, but does not look at the objects pending on B, so C is not submitted
  and stays in the pending map, to be reported as missing its owner.
\<close>

theorem load_chain_stops_after_first_dependent:
  "submitted (trace (snd (Load exampleEnv [Document objC, Document objB, Document objA] (newLoader [])))) = [2, 1]
   \<and> pending (snd (Load exampleEnv [Document objC, Document objB, Document objA] (newLoader [])))
       = [(uniqueKeyFromOwnerReference (exampleRef ''Pod'' ''b'' ''uid-b''), [0])]
   \<and> exist (snd (Load exampleEnv [Document objC, Document objB, Document objA] (newLoader [])))
       (uniqueKeyFromOwnerReference (exampleRef ''Pod'' ''b'' ''uid-b'')) = Some ''new-b''"
  by code_simp

subsection \<open>What apply and the loops leave alone\<close>

lemma applyObj_frame:
  "applyObj env a l = (r, l') \<Longrightarrow>
     exist l' = exist l \<and> pending l' = pending l \<and> length (heap l') = length (heap l)"
  by (auto simp: applyObj_def logged_def Let_def IsAlreadyExists_def IsConflict_def
           split: option.splits prod.splits sum.splits if_splits)

lemma applyPending_pending: "pending (applyPending env ps l) = pending l"
proof (induction ps arbitrary: l)
  case Nil
  show ?case by simp
next
  case (Cons p ps)
  show ?case
    by (auto simp: Let_def Cons.IH dest!: applyObj_frame split: prod.split option.split)
qed

lemma applyPending_append:
  "applyPending env (ps @ qs) l = applyPending env qs (applyPending env ps l)"
  by (induction ps arbitrary: l) (simp_all add: Let_def split: prod.split option.split)

text \<open>
  C9. When the loop over the objects pending on a key reaches a dependent that has more
  than one owner reference, one of them not yet in \<open>exist\<close>, the turn of that dependent
  changes nothing: it is not applied and nothing is queued. After the cascade the pending
  map is the one before it without the entry of the key, so the dependent is not queued
  again under any other key.
\<close>

theorem cascade_discards_not_ready_dependent:
  "(1 < length (ownerReferences (heap l1 ! p)) \<and> \<not> hasAllOwnerReferences (exist l1) (heap l1 ! p)
      \<and> l1 = applyPending env before l
     \<longrightarrow> applyPending env (before @ p # after) l = applyPending env after l1)
   \<and> pending (cascade env key l) = AList.delete key (pending l)"
proof (intro conjI impI)
  assume "1 < length (ownerReferences (heap l1 ! p)) \<and> \<not> hasAllOwnerReferences (exist l1) (heap l1 ! p)
      \<and> l1 = applyPending env before l"
  then show "applyPending env (before @ p # after) l = applyPending env after l1"
    by (auto simp: applyPending_append)
next
  show "pending (cascade env key l) = AList.delete key (pending l)"
  proof (cases "map_of (pending l) key")
    case None
    then have "key \<notin> fst ` set (pending l)" by (simp add: map_of_eq_None_iff)
    then show ?thesis using None by (simp add: cascade_def)
  next
    case (Some objs)
    then show ?thesis by (simp add: cascade_def Let_def applyPending_pending)
  qed
qed

theorem cascade_discards_not_ready_dependent_witness:
  "applyPending exampleEnv [0] waitingForX = waitingForX
   \<and> pending (cascade exampleEnv (uniqueKeyFromOwnerReference (exampleRef ''Pod'' ''a'' ''uid-a'')) waitingForX)
       = [(uniqueKeyFromOwnerReference (exampleRef ''Pod'' ''x'' ''uid-x''), [0])]"
proof -
  have ready: "1 < length (ownerReferences (heap waitingForX ! 0))
      \<and> \<not> hasAllOwnerReferences (exist waitingForX) (heap waitingForX ! 0)
      \<and> waitingForX = applyPending exampleEnv [] waitingForX"
    by (simp add: waitingForX_def objD_def exampleObj_def exampleRef_def
          hasAllOwnerReferences_def uniqueKeyFromOwnerReference_def)
  have rest: "AList.delete (uniqueKeyFromOwnerReference (exampleRef ''Pod'' ''a'' ''uid-a'')) (pending waitingForX)
       = [(uniqueKeyFromOwnerReference (exampleRef ''Pod'' ''x'' ''uid-x''), [0])]"
    by (simp add: waitingForX_def exampleRef_def uniqueKeyFromOwnerReference_def AList.delete_eq)
  show ?thesis
    using cascade_discards_not_ready_dependent
            [where ?l1.0 = waitingForX and p = 0 and env = exampleEnv and before = "[]"
               and l = waitingForX and after = "[]"
               and key = "uniqueKeyFromOwnerReference (exampleRef ''Pod'' ''a'' ''uid-a'')"]
          ready rest
    by simp
qed

subsection \<open>Decoding and the heap\<close>

lemma applyPending_heap_length: "length (heap (applyPending env ps l)) = length (heap l)"
proof (induction ps arbitrary: l)
  case Nil
  show ?case by simp
next
  case (Cons p ps)
  show ?case
    by (auto simp: Let_def Cons.IH dest!: applyObj_frame split: prod.split option.split)
qed

lemma cascade_heap_length: "length (heap (cascade env key l)) = length (heap l)"
  by (simp add: cascade_def Let_def applyPending_heap_length split: option.split)

lemma applyAndRecord_heap_length: "length (heap (applyAndRecord env a l)) = length (heap l)"
  by (auto simp: applyAndRecord_def Let_def cascade_heap_length dest!: applyObj_frame
           split: prod.split option.split)

lemma waitForOwners_heap: "heap (snd (waitForOwners a refs b l)) = heap l"
  by (induction refs arbitrary: b l) (simp_all add: Let_def logged_def)


lemma load_heap_length: "length (heap (load env a l)) = length (heap l)"
proof -
  have "heap l1 = heap l" if "waitForOwners a refs True l = (b, l1)" for refs b l1
    using waitForOwners_heap [of a refs True l] that by simp
  then show ?thesis
    by (auto simp: load_def applyAndRecord_heap_length split: prod.split)
qed

lemma visit_result:
  "visit env obj l = (r, l') \<Longrightarrow>
     (ctxErr env (length (heap l)) \<longrightarrow> r = Some ContextError \<and> l' = l)
     \<and> (\<not> ctxErr env (length (heap l)) \<longrightarrow> r = None \<and> length (heap l') = Suc (length (heap l)))"
  by (auto simp: visit_def Let_def logged_def load_heap_length split: if_splits)

lemma Decode_wellformed:
  "Malformed \<notin> set docs \<Longrightarrow> \<forall>n. \<not> ctxErr env n \<Longrightarrow>
     fst (Decode (visit env) docs l) = None
     \<and> length (heap (snd (Decode (visit env) docs l))) = length (heap l) + length docs"
proof (induction docs arbitrary: l)
  case Nil
  show ?case by simp
next
  case (Cons d docs)
  then obtain obj where d: "d = Document obj" by (cases d) auto
  obtain r l1 where v: "visit env obj l = (r, l1)" by (cases "visit env obj l")
  from visit_result [OF v] Cons.prems(2)
  have r: "r = None" and len: "length (heap l1) = Suc (length (heap l))" by auto
  from Cons.IH [of l1] Cons.prems show ?case by (simp add: d v r len)
qed

lemma Decode_malformed:
  "Malformed \<in> set docs \<Longrightarrow> fst (Decode (visit env) docs l) \<noteq> None"
proof (induction docs arbitrary: l)
  case Nil
  then show ?case by simp
next
  case (Cons d docs)
  show ?case
  proof (cases d)
    case Malformed
    then show ?thesis by simp
  next
    case (Document obj)
    with Cons.prems have "Malformed \<in> set docs" by simp
    from Cons.IH [OF this] show ?thesis
      by (simp add: Document split: prod.split option.split)
  qed
qed

lemma Decode_stops_at_malformed:
  "Decode f (before @ Malformed # after) l = Decode f (before @ [Malformed]) l"
proof (induction before arbitrary: l)
  case Nil
  show ?case by simp
next
  case (Cons d before)
  show ?case by (cases d) (simp_all add: Cons.IH split: prod.split option.split)
qed

lemma Decode_append_wellformed:
  "fst (Decode f before l) = None \<Longrightarrow>
     Decode f (before @ rest) l = Decode f rest (snd (Decode f before l))"
proof (induction before arbitrary: l)
  case Nil
  show ?case by simp
next
  case (Cons d before)
  show ?case
  proof (cases d)
    case Malformed
    with Cons.prems show ?thesis by simp
  next
    case (Document obj)
    show ?thesis
    proof (cases "f obj l")
      case (Pair r l1)
      with Cons.prems Document have "r = None" by (cases r) simp_all
      with Cons.prems Cons.IH [of l1] Pair Document show ?thesis by simp
    qed
  qed
qed






text \<open>
  C7. A malformed document makes \<open>Load\<close> return an error, the documents after it are
  not read, and the error is the decoding error when nothing failed before it. Without a
  malformed document and with the context not cancelled \<open>Load\<close> returns no error,
  whatever the write client and the kind resolution answer.
\<close>

theorem Load_fails_only_on_malformed_input:
  "(Malformed \<in> set docs \<longrightarrow> fst (Load env docs l) \<noteq> None)
   \<and> Load env (before @ Malformed # after) l = Load env (before @ [Malformed]) l
   \<and> (Malformed \<notin> set before \<and> (\<forall>n. \<not> ctxErr env n) \<longrightarrow>
        Load env (before @ Malformed # after) l = (Some DecodeError, snd (Decode (visit env) before l)))
   \<and> (Malformed \<notin> set docs \<and> (\<forall>n. \<not> ctxErr env n) \<longrightarrow> fst (Load env docs l) = None)"
proof (intro conjI impI)
  assume "Malformed \<in> set docs"
  from Decode_malformed [OF this, of env l] show "fst (Load env docs l) \<noteq> None"
    by (auto simp: Load_def split: prod.split option.split)
next
  show "Load env (before @ Malformed # after) l = Load env (before @ [Malformed]) l"
    by (simp add: Load_def Decode_stops_at_malformed [of "visit env" before after l])
next
  assume "Malformed \<notin> set before \<and> (\<forall>n. \<not> ctxErr env n)"
  then have "fst (Decode (visit env) before l) = None"
    using Decode_wellformed [of before env l] by simp
  from Decode_append_wellformed [OF this, of "Malformed # after"]
  show "Load env (before @ Malformed # after) l = (Some DecodeError, snd (Decode (visit env) before l))"
    by (simp add: Load_def)
next
  assume "Malformed \<notin> set docs \<and> (\<forall>n. \<not> ctxErr env n)"
  then have "fst (Decode (visit env) docs l) = None"
    using Decode_wellformed [of docs env l] by simp
  then show "fst (Load env docs l) = None"
    by (auto simp: Load_def split: prod.split option.split)
qed

theorem Load_fails_only_on_malformed_input_witness:
  "fst (Load exampleEnv [Document objA, Malformed, Document objB] (newLoader [])) \<noteq> None
   \<and> Load exampleEnv ([Document objA] @ Malformed # [Document objB]) (newLoader [])
       = Load exampleEnv ([Document objA] @ [Malformed]) (newLoader [])
   \<and> Load exampleEnv ([Document objA] @ Malformed # [Document objB]) (newLoader [])
       = (Some DecodeError, snd (Decode (visit exampleEnv) [Document objA] (newLoader [])))
   \<and> fst (Load (answeringEnv (Inl OtherError) (Inl Conflict)) [Document objA, Document objB] (newLoader [])) = None"
proof -
  have here: "Malformed \<in> set [Document objA, Malformed, Document objB]"
    by simp
  have before: "Malformed \<notin> set [Document objA] \<and> (\<forall>n. \<not> ctxErr exampleEnv n)"
    by (simp add: exampleEnv_def)
  have nowhere: "Malformed \<notin> set [Document objA, Document objB]
      \<and> (\<forall>n. \<not> ctxErr (answeringEnv (Inl OtherError) (Inl Conflict)) n)"
    by (simp add: answeringEnv_def exampleEnv_def)
  show ?thesis
    using Load_fails_only_on_malformed_input
            [where docs = "[Document objA, Malformed, Document objB]" and env = exampleEnv
               and l = "newLoader []" and before = "[Document objA]" and after = "[Document objB]"]
          Load_fails_only_on_malformed_input
            [where docs = "[Document objA, Document objB]" and env = "answeringEnv (Inl OtherError) (Inl Conflict)"
               and l = "newLoader []" and before = "[]" and after = "[]"]
          here before nowhere
    by blast
qed

subsection \<open>Readings of the trace\<close>

lemma map_filter_append: "List.map_filter f (xs @ ys) = List.map_filter f xs @ List.map_filter f ys"
  by (simp add: List.map_filter_def)

lemma submitted_simps [simp]:
  "submitted [] = []"
  "submitted (e # es) = (case submittedAddr e of None \<Rightarrow> submitted es | Some a \<Rightarrow> a # submitted es)"
  "submitted (es @ es') = submitted es @ submitted es'"
  by (simp_all add: submitted_def map_filter_append split: option.split)

lemma enqueued_simps [simp]:
  "enqueued [] = []"
  "enqueued (e # es) = (case enqueuedAddr e of None \<Rightarrow> enqueued es | Some a \<Rightarrow> a # enqueued es)"
  "enqueued (es @ es') = enqueued es @ enqueued es'"
  by (simp_all add: enqueued_def map_filter_append split: option.split)

lemma assignments_simps [simp]:
  "assignments [] = []"
  "assignments (e # es) = (case assignment e of None \<Rightarrow> assignments es | Some a \<Rightarrow> a # assignments es)"
  "assignments (es @ es') = assignments es @ assignments es'"
  by (simp_all add: assignments_def map_filter_append split: option.split)

lemma submissions_simps [simp]:
  "submissions [] = []"
  "submissions (e # es) = (case submission e of None \<Rightarrow> submissions es | Some a \<Rightarrow> a # submissions es)"
  "submissions (es @ es') = submissions es @ submissions es'"
  by (simp_all add: submissions_def map_filter_append split: option.split)

lemma reportedMissing_simps [simp]:
  "reportedMissing [] = []"
  "reportedMissing (e # es) = (case skippedAddr e of None \<Rightarrow> reportedMissing es | Some a \<Rightarrow> a # reportedMissing es)"
  "reportedMissing (es @ es') = reportedMissing es @ reportedMissing es'"
  by (simp_all add: reportedMissing_def map_filter_append split: option.split)

lemma recordAll_simps [simp]:
  "recordAll ex [] = ex"
  "recordAll ex (kv # kvs) = recordAll (ex(fst kv \<mapsto> snd kv)) kvs"
  "recordAll ex (kvs @ kvs') = recordAll (recordAll ex kvs) kvs'"
  by (simp_all add: recordAll_def)

lemma applyObj_summary:
  assumes "applyObj env a l = (r, l')"
  shows "exist l' = exist l \<and> pending l' = pending l \<and> length (heap l') = length (heap l)
     \<and> (heap l' = heap l \<or> heap l' = (heap l)[a := clearUnstructured env (heap l ! a)])
     \<and> (r \<noteq> None \<longrightarrow> heap l' = (heap l)[a := clearUnstructured env (heap l ! a)])
     \<and> (\<exists>es. trace l' = trace l @ es \<and> set (submitted es) \<subseteq> {a} \<and> enqueued es = []
          \<and> reportedMissing es = []
          \<and> set (submissions es) \<subseteq> {(a, clearUnstructured env (heap l ! a))}
          \<and> assignments es =
              (case r of None \<Rightarrow> []
               | Some newObj \<Rightarrow> [(uniqueKeyFromMetadata (clearUnstructured env (heap l ! a)), uid newObj)]))"
  using assms
  by (auto simp: applyObj_def logged_def Let_def IsAlreadyExists_def IsConflict_def
           split: option.splits prod.splits sum.splits if_splits)

subsection \<open>One object applied, one object queued\<close>

lemma recordApplied_summary:
  assumes "a < length (heap l)"
  shows "pending (recordApplied env a l) = pending l
     \<and> length (heap (recordApplied env a l)) = length (heap l)
     \<and> (\<forall>b. b \<noteq> a \<longrightarrow> heap (recordApplied env a l) ! b = heap l ! b)
     \<and> (heap (recordApplied env a l) ! a = updateOwnerReferences (exist l) (heap l ! a)
          \<or> heap (recordApplied env a l) ! a
               = clearUnstructured env (updateOwnerReferences (exist l) (heap l ! a)))
     \<and> (\<exists>es. trace (recordApplied env a l) = trace l @ es
          \<and> set (submitted es) \<subseteq> {a} \<and> enqueued es = [] \<and> reportedMissing es = []
          \<and> set (submissions es)
               \<subseteq> {(a, clearUnstructured env (updateOwnerReferences (exist l) (heap l ! a)))}
          \<and> exist (recordApplied env a l) = recordAll (exist l) (assignments es))"
proof -
  let ?rw = "updateOwnerReferences (exist l) (heap l ! a)"
  let ?l1 = "l\<lparr>heap := (heap l)[a := ?rw]\<rparr>"
  obtain r l2 where ap: "applyObj env a ?l1 = (r, l2)" by (cases "applyObj env a ?l1")
  have at: "heap ?l1 ! a = ?rw" using assms by simp
  note s = applyObj_summary [OF ap, unfolded at]
  from s obtain es where es: "trace l2 = trace l @ es" "set (submitted es) \<subseteq> {a}"
      "enqueued es = []" "reportedMissing es = []"
      "set (submissions es) \<subseteq> {(a, clearUnstructured env ?rw)}"
      "assignments es = (case r of None \<Rightarrow> []
          | Some newObj \<Rightarrow> [(uniqueKeyFromMetadata (clearUnstructured env ?rw), uid newObj)])"
    by auto
  show ?thesis
  proof (cases r)
    case None
    have "recordApplied env a l = l2" by (simp add: recordApplied_def ap None)
    moreover have "heap l2 ! a = ?rw \<or> heap l2 ! a = clearUnstructured env ?rw"
      using s assms by auto
    moreover have "\<forall>b. b \<noteq> a \<longrightarrow> heap l2 ! b = heap l ! b"
      using s by auto
    ultimately show ?thesis using s es None by auto
  next
    case (Some newObj)
    have h: "heap l2 = (heap l)[a := clearUnstructured env ?rw]" using s Some by simp
    then have k: "heap l2 ! a = clearUnstructured env ?rw" using assms by simp
    have ra: "recordApplied env a l
        = l2\<lparr>exist := (exist l2)(uniqueKeyFromMetadata (clearUnstructured env ?rw) \<mapsto> uid newObj)\<rparr>"
      by (simp add: recordApplied_def ap Some k)
    have "exist (recordApplied env a l) = recordAll (exist l) (assignments es)"
      using s es Some by (simp add: ra)
    then show ?thesis using s es h k assms by (auto simp: ra)
  qed
qed

lemma pendingFor_update:
  "pendingFor (AList.update k (pendingFor p k @ [a]) p) k'
     = (if k' = k then pendingFor p k @ [a] else pendingFor p k')"
  by (simp add: pendingFor_def update_conv')

lemma pendingFor_delete:
  "pendingFor (AList.delete k p) k' = (if k' = k then [] else pendingFor p k')"
  by (simp add: pendingFor_def delete_conv')

lemma pendingAddrs_update:
  "count_list (pendingAddrs (AList.update k (pendingFor p k @ [a]) p)) x
     = count_list (pendingAddrs p) x + (if x = a then 1 else 0)"
  by (induction p) (auto simp: pendingAddrs_def pendingFor_def)

lemma pendingAddrs_delete:
  "count_list (pendingAddrs (AList.delete k p)) x \<le> count_list (pendingAddrs p) x"
  by (induction p) (auto simp: pendingAddrs_def)

lemma pendingFor_in_pendingAddrs:
  "a \<in> set (pendingFor p k) \<Longrightarrow> a \<in> set (pendingAddrs p)"
proof -
  assume a: "a \<in> set (pendingFor p k)"
  then obtain objs where m: "map_of p k = Some objs" and "a \<in> set objs"
    by (cases "map_of p k") (auto simp: pendingFor_def)
  with map_of_SomeD [OF m] show ?thesis
    by (force simp: pendingAddrs_def)
qed

lemma waitForOwners_summary:
  "waitForOwners a refs b l = (b', l') \<Longrightarrow>
     exist l' = exist l \<and> heap l' = heap l
     \<and> b' = (b \<and> list_all (\<lambda>r. exist l (uniqueKeyFromOwnerReference r) \<noteq> None) refs)
     \<and> (\<forall>k. pendingFor (pending l') k
            = pendingFor (pending l) k
              @ replicate (length (filter (\<lambda>r. uniqueKeyFromOwnerReference r = k \<and> exist l k = None) refs)) a)
     \<and> (\<forall>x. count_list (pendingAddrs (pending l')) x
            = count_list (pendingAddrs (pending l)) x
              + (if x = a
                 then length (filter (\<lambda>r. exist l (uniqueKeyFromOwnerReference r) = None) refs)
                 else 0))
     \<and> (\<exists>es. trace l' = trace l @ es \<and> submitted es = [] \<and> set (enqueued es) \<subseteq> {a}
          \<and> reportedMissing es = [] \<and> submissions es = [] \<and> assignments es = [])"
proof (induction refs arbitrary: b l)
  case Nil
  then show ?case by simp
next
  case (Cons r refs)
  let ?k = "uniqueKeyFromOwnerReference r"
  show ?case
  proof (cases "exist l ?k = None")
    case True
    let ?l1 = "logged (Enqueue ?k a)
        (l\<lparr>pending := AList.update ?k (pendingFor (pending l) ?k @ [a]) (pending l)\<rparr>)"
    from Cons.prems True have w: "waitForOwners a refs False ?l1 = (b', l')"
      by (simp add: Let_def)
    note ih = Cons.IH [OF w]
    have l1: "exist ?l1 = exist l" "heap ?l1 = heap l" "trace ?l1 = trace l @ [Enqueue ?k a]"
      "pending ?l1 = AList.update ?k (pendingFor (pending l) ?k @ [a]) (pending l)"
      by (simp_all add: logged_def)
    from ih obtain es where es: "trace l' = trace ?l1 @ es" "submitted es = []"
        "set (enqueued es) \<subseteq> {a}" "reportedMissing es = []" "submissions es = []"
        "assignments es = []"
      by auto
    have tr: "\<exists>es. trace l' = trace l @ es \<and> submitted es = [] \<and> set (enqueued es) \<subseteq> {a}
          \<and> reportedMissing es = [] \<and> submissions es = [] \<and> assignments es = []"
      using es by (intro exI [of _ "Enqueue ?k a # es"]) (simp add: l1)
    have pf: "pendingFor (pending l') k
            = pendingFor (pending l) k
              @ replicate (length (filter (\<lambda>r. uniqueKeyFromOwnerReference r = k \<and> exist l k = None) (r # refs))) a"
      for k
      using ih True by (auto simp: l1 pendingFor_update replicate_app_Cons_same)
    have ct: "count_list (pendingAddrs (pending l')) x
            = count_list (pendingAddrs (pending l)) x
              + (if x = a
                 then length (filter (\<lambda>r. exist l (uniqueKeyFromOwnerReference r) = None) (r # refs))
                 else 0)" for x
      using ih True by (simp add: l1 pendingAddrs_update)
    show ?thesis using ih True tr pf ct by (simp add: l1)
  next
    case False
    with Cons.prems have w: "waitForOwners a refs b l = (b', l')" by (simp add: Let_def)
    from Cons.IH [OF w] False show ?thesis by auto
  qed
qed

lemma waitForOwners_all_exist:
  "list_all (\<lambda>r. exist l (uniqueKeyFromOwnerReference r) \<noteq> None) refs \<Longrightarrow>
     waitForOwners a refs b l = (b, l)"
  by (induction refs arbitrary: b l) (auto simp: Let_def)

subsection \<open>A load is a sequence of steps\<close>

lemma recordApplied_frame:
  "pending (recordApplied env a l) = pending l
   \<and> length (heap (recordApplied env a l)) = length (heap l)
   \<and> dom (exist l) \<subseteq> dom (exist (recordApplied env a l))"
proof -
  let ?l1 = "l\<lparr>heap := (heap l)[a := updateOwnerReferences (exist l) (heap l ! a)]\<rparr>"
  obtain r l2 where ap: "applyObj env a ?l1 = (r, l2)" by (cases "applyObj env a ?l1")
  from applyObj_frame [OF ap] show ?thesis
    by (cases r) (auto simp: recordApplied_def ap)
qed

lemma applyPending_Cons:
  "applyPending env (p # ps) l =
     (if length (ownerReferences (heap l ! p)) = 1 \<or> hasAllOwnerReferences (exist l) (heap l ! p)
      then applyPending env ps (recordApplied env p l)
      else applyPending env ps l)"
  by (simp add: recordApplied_def Let_def split: prod.split option.split)

lemma applyPending_steps:
  "exist l key \<noteq> None \<Longrightarrow> set ps \<subseteq> set (pendingFor (pending l) key) \<Longrightarrow>
     (step env objs)\<^sup>*\<^sup>* l (applyPending env ps l)
     \<and> exist (applyPending env ps l) key \<noteq> None"
proof (induction ps arbitrary: l)
  case Nil
  then show ?case by simp
next
  case (Cons p ps)
  show ?case
  proof (cases "length (ownerReferences (heap l ! p)) = 1 \<or> hasAllOwnerReferences (exist l) (heap l ! p)")
    case True
    let ?l1 = "recordApplied env p l"
    from Cons.prems have "p \<in> set (pendingFor (pending l) key)" by simp
    from Cons.prems(1) this True have s: "step env objs l ?l1" by (rule step.dependent)
    from recordApplied_frame [of env p l] Cons.prems
    have "exist ?l1 key \<noteq> None" "set ps \<subseteq> set (pendingFor (pending ?l1) key)" by auto
    from Cons.IH [OF this] s True show ?thesis
      by (auto simp del: applyPending.simps simp: applyPending_Cons intro: converse_rtranclp_into_rtranclp)
  next
    case False
    with Cons.IH [of l] Cons.prems show ?thesis
      by (simp del: applyPending.simps add: applyPending_Cons)
  qed
qed

lemma cascade_steps:
  assumes "exist l key \<noteq> None"
  shows "(step env objs)\<^sup>*\<^sup>* l (cascade env key l)"
proof (cases "map_of (pending l) key")
  case None
  then show ?thesis by (simp add: cascade_def)
next
  case (Some ps)
  then have "set ps \<subseteq> set (pendingFor (pending l) key)" by (simp add: pendingFor_def)
  from applyPending_steps [OF assms this, of env objs]
  have a: "(step env objs)\<^sup>*\<^sup>* l (applyPending env ps l)"
    and e: "exist (applyPending env ps l) key \<noteq> None" by auto
  from e have "step env objs (applyPending env ps l)
      ((applyPending env ps l)\<lparr>pending := AList.delete key (pending (applyPending env ps l))\<rparr>)"
    by (rule step.discard)
  with a show ?thesis by (simp add: cascade_def Some Let_def)
qed

lemma applyAndRecord_steps:
  assumes "step env objs l0 (recordApplied env a l)"
  shows "(step env objs)\<^sup>*\<^sup>* l0
           (applyAndRecord env a (l\<lparr>heap := (heap l)[a := updateOwnerReferences (exist l) (heap l ! a)]\<rparr>))"
proof -
  let ?l1 = "l\<lparr>heap := (heap l)[a := updateOwnerReferences (exist l) (heap l ! a)]\<rparr>"
  obtain r l2 where ap: "applyObj env a ?l1 = (r, l2)" by (cases "applyObj env a ?l1")
  show ?thesis
  proof (cases r)
    case None
    then have "applyAndRecord env a ?l1 = recordApplied env a l"
      by (simp add: applyAndRecord_def recordApplied_def ap)
    with assms show ?thesis by simp
  next
    case (Some newObj)
    let ?key = "uniqueKeyFromMetadata (heap l2 ! a)"
    have ra: "recordApplied env a l = l2\<lparr>exist := (exist l2)(?key \<mapsto> uid newObj)\<rparr>"
      by (simp add: recordApplied_def ap Some)
    have "applyAndRecord env a ?l1 = cascade env ?key (recordApplied env a l)"
      by (simp add: applyAndRecord_def ap Some ra Let_def)
    moreover have "exist (recordApplied env a l) ?key \<noteq> None" by (simp add: ra)
    ultimately show ?thesis
      using assms cascade_steps [of "recordApplied env a l" ?key env objs] by simp
  qed
qed

lemma load_steps:
  assumes "length (heap l) < length objs" and "filterObj env (objs ! length (heap l))"
  shows "(step env objs)\<^sup>*\<^sup>* l (load env (length (heap l)) (alloc (objs ! length (heap l)) l))"
proof -
  let ?a = "length (heap l)"
  let ?obj = "objs ! ?a"
  let ?l1 = "alloc ?obj l"
  have at: "heap ?l1 ! ?a = ?obj" and ex: "exist ?l1 = exist l" by (simp_all add: alloc_def)
  show ?thesis
  proof (cases "hasAllOwnerReferences (exist l) ?obj")
    case False
    then have ne: "ownerReferences ?obj \<noteq> []" by (auto simp: hasAllOwnerReferences_def)
    obtain b l2 where w: "waitForOwners ?a (ownerReferences ?obj) True ?l1 = (b, l2)"
      by (cases "waitForOwners ?a (ownerReferences ?obj) True ?l1")
    from waitForOwners_summary [OF w] False have "\<not> b"
      by (simp add: ex hasAllOwnerReferences_def)
    then have "load env ?a ?l1 = snd (waitForOwners ?a (ownerReferences ?obj) True ?l1)"
      using ne by (simp add: load_def at w)
    moreover from assms False
    have "step env objs l (snd (waitForOwners ?a (ownerReferences ?obj) True ?l1))"
      by (rule step.wait)
    ultimately show ?thesis by simp
  next
    case True
    let ?rw = "?l1\<lparr>heap := (heap ?l1)[?a := updateOwnerReferences (exist ?l1) (heap ?l1 ! ?a)]\<rparr>"
    from assms True have s: "step env objs l (recordApplied env ?a ?l1)" by (rule step.fresh)
    have "load env ?a ?l1 = applyAndRecord env ?a ?rw"
    proof (cases "ownerReferences ?obj = []")
      case True
      then have "?rw = ?l1" by (simp add: alloc_def updateOwnerReferences_def)
      with True show ?thesis by (simp add: load_def at)
    next
      case False
      from True have "waitForOwners ?a (ownerReferences ?obj) True ?l1 = (True, ?l1)"
        by (intro waitForOwners_all_exist) (simp add: hasAllOwnerReferences_def ex)
      with False show ?thesis by (simp add: load_def at)
    qed
    with applyAndRecord_steps [OF s] show ?thesis by simp
  qed
qed

lemma visit_steps:
  assumes "visit env obj l = (r, l')" and "length (heap l) < length objs"
    and "objs ! length (heap l) = obj"
  shows "(step env objs)\<^sup>*\<^sup>* l l'"
proof (cases "ctxErr env (length (heap l))")
  case True
  with assms show ?thesis by (simp add: visit_def)
next
  case False
  show ?thesis
  proof (cases "filterObj env obj")
    case True
    with assms False load_steps [of l objs env] show ?thesis
      by (auto simp: visit_def Let_def alloc_def)
  next
    case f: False
    with assms step.skip [of l objs env] have "step env objs l l'"
      using False by (auto simp: visit_def Let_def alloc_def)
    then show ?thesis by simp
  qed
qed

lemma drop_is_Cons:
  "drop n xs = y # ys \<Longrightarrow> n < length xs \<and> xs ! n = y \<and> drop (Suc n) xs = ys"
  by (metis Cons_nth_drop_Suc drop_all leI list.distinct(1) list.inject)

lemma Decode_steps:
  "Decode (visit env) docs l = (r, l') \<Longrightarrow> drop (length (heap l)) objs = decoded docs \<Longrightarrow>
     (step env objs)\<^sup>*\<^sup>* l l'"
proof (induction docs arbitrary: l)
  case Nil
  then show ?case by simp
next
  case (Cons d docs)
  show ?case
  proof (cases d)
    case Malformed
    with Cons.prems show ?thesis by simp
  next
    case (Document obj)
    with Cons.prems have dr: "drop (length (heap l)) objs = obj # decoded docs" by simp
    note d = drop_is_Cons [OF dr]
    obtain r1 l1 where v: "visit env obj l = (r1, l1)" by (cases "visit env obj l")
    from visit_steps [OF v] d have s: "(step env objs)\<^sup>*\<^sup>* l l1" by simp
    show ?thesis
    proof (cases r1)
      case (Some err)
      with Cons.prems Document v s show ?thesis by simp
    next
      case None
      from visit_result [OF v] None have "length (heap l1) = Suc (length (heap l))"
        by (cases "ctxErr env (length (heap l))") auto
      with d have "drop (length (heap l1)) objs = decoded docs" by simp
      moreover from Cons.prems Document v None have "Decode (visit env) docs l1 = (r, l')" by simp
      ultimately have "(step env objs)\<^sup>*\<^sup>* l1 l'" by (rule Cons.IH [rotated])
      with s show ?thesis by simp
    qed
  qed
qed

lemma Load_steps:
  assumes "Load env docs (newLoader c) = (r, l')"
  shows "\<exists>l. (step env (decoded docs))\<^sup>*\<^sup>* (newLoader c) l
           \<and> (case r of Some err \<Rightarrow> l' = l
              | None \<Rightarrow> l' = l\<lparr>trace := trace l @ missingOwnerReport (pending l)\<rparr>)"
proof -
  obtain r1 l1 where d: "Decode (visit env) docs (newLoader c) = (r1, l1)"
    by (cases "Decode (visit env) docs (newLoader c)")
  have "drop (length (heap (newLoader c))) (decoded docs) = decoded docs"
    by (simp add: newLoader_def)
  from Decode_steps [OF d this] have "(step env (decoded docs))\<^sup>*\<^sup>* (newLoader c) l1" .
  moreover from assms d have "case r of Some err \<Rightarrow> l' = l1
              | None \<Rightarrow> l' = l1\<lparr>trace := trace l1 @ missingOwnerReport (pending l1)\<rparr>"
    by (cases r1) (auto simp: Load_def)
  ultimately show ?thesis by blast
qed

subsection \<open>The invariant of the steps\<close>

lemma invD:
  assumes "loaderInv env objs l"
  shows "length (heap l) \<le> length objs"
    and "\<And>a. a \<in> set (submitted (trace l)) \<Longrightarrow> a < length (heap l) \<and> filterObj env (objs ! a)"
    and "\<And>a. a \<in> set (enqueued (trace l)) \<Longrightarrow> a < length (heap l) \<and> filterObj env (objs ! a)"
    and "\<And>a. a \<in> set (pendingAddrs (pending l)) \<Longrightarrow> a < length (heap l) \<and> filterObj env (objs ! a)"
    and "\<And>a. a < length (heap l) \<Longrightarrow>
           heap l ! a = objs ! a \<or> hasAllOwnerReferences (exist l) (objs ! a)"
    and "\<And>a. a \<in> set (submitted (trace l)) \<Longrightarrow> hasAllOwnerReferences (exist l) (objs ! a)"
    and "\<And>k a. a \<in> set (pendingFor (pending l) k) \<Longrightarrow>
           k \<in> uniqueKeyFromOwnerReference ` set (ownerReferences (objs ! a))"
    and "\<And>a r. a < length (heap l) \<Longrightarrow> filterObj env (objs ! a) \<Longrightarrow>
           r \<in> set (ownerReferences (objs ! a)) \<Longrightarrow>
           exist l (uniqueKeyFromOwnerReference r) = None \<Longrightarrow>
           a \<in> set (pendingFor (pending l) (uniqueKeyFromOwnerReference r))"
    and "\<And>a. count_list (pendingAddrs (pending l)) a \<le> length (ownerReferences (objs ! a))"
    and "exist l = recordAll Map.empty (assignments (trace l))"
    and "reportedMissing (trace l) = []"
  using assms unfolding loaderInv_def by blast+

lemma invI:
  assumes "length (heap l) \<le> length objs"
    and "\<And>a. a \<in> set (submitted (trace l)) \<Longrightarrow> a < length (heap l) \<and> filterObj env (objs ! a)"
    and "\<And>a. a \<in> set (enqueued (trace l)) \<Longrightarrow> a < length (heap l) \<and> filterObj env (objs ! a)"
    and "\<And>a. a \<in> set (pendingAddrs (pending l)) \<Longrightarrow> a < length (heap l) \<and> filterObj env (objs ! a)"
    and "\<And>a. a < length (heap l) \<Longrightarrow>
           heap l ! a = objs ! a \<or> hasAllOwnerReferences (exist l) (objs ! a)"
    and "\<And>a. a \<in> set (submitted (trace l)) \<Longrightarrow> hasAllOwnerReferences (exist l) (objs ! a)"
    and "\<And>k a. a \<in> set (pendingFor (pending l) k) \<Longrightarrow>
           k \<in> uniqueKeyFromOwnerReference ` set (ownerReferences (objs ! a))"
    and "\<And>a r. a < length (heap l) \<Longrightarrow> filterObj env (objs ! a) \<Longrightarrow>
           r \<in> set (ownerReferences (objs ! a)) \<Longrightarrow>
           exist l (uniqueKeyFromOwnerReference r) = None \<Longrightarrow>
           a \<in> set (pendingFor (pending l) (uniqueKeyFromOwnerReference r))"
    and "\<And>a. count_list (pendingAddrs (pending l)) a \<le> length (ownerReferences (objs ! a))"
    and "exist l = recordAll Map.empty (assignments (trace l))"
    and "reportedMissing (trace l) = []"
  shows "loaderInv env objs l"
  unfolding loaderInv_def using assms by blast

lemma recordAll_dom: "dom ex \<subseteq> dom (recordAll ex kvs)"
proof (induction kvs arbitrary: ex)
  case Nil
  show ?case by simp
next
  case (Cons kv kvs)
  have "dom ex \<subseteq> dom (ex(fst kv \<mapsto> snd kv))" by auto
  also have "\<dots> \<subseteq> dom (recordAll (ex(fst kv \<mapsto> snd kv)) kvs)" by (rule Cons.IH)
  finally show ?case by simp
qed

lemma hasAllOwnerReferences_mono:
  "hasAllOwnerReferences ex obj \<Longrightarrow> dom ex \<subseteq> dom ex' \<Longrightarrow> hasAllOwnerReferences ex' obj"
  by (auto simp: hasAllOwnerReferences_def list_all_iff)

lemma absent_mono: "dom ex \<subseteq> dom ex' \<Longrightarrow> ex' k = None \<Longrightarrow> ex k = None"
  by auto

lemma inv_newLoader: "loaderInv env objs (newLoader c)"
  by (rule invI) (simp_all add: newLoader_def pendingAddrs_def pendingFor_def)

lemma recordApplied_inv:
  assumes i: "loaderInv env objs l" and a: "a < length (heap l)" and f: "filterObj env (objs ! a)"
    and h: "hasAllOwnerReferences (exist l) (objs ! a)"
  shows "loaderInv env objs (recordApplied env a l)"
proof -
  let ?l' = "recordApplied env a l"
  from recordApplied_summary [OF a, of env] obtain es where
    p: "pending ?l' = pending l" and n: "length (heap ?l') = length (heap l)"
    and o: "\<And>b. b \<noteq> a \<Longrightarrow> heap ?l' ! b = heap l ! b"
    and t: "trace ?l' = trace l @ es" and s: "set (submitted es) \<subseteq> {a}"
    and e: "enqueued es = []" and m: "reportedMissing es = []"
    and x: "exist ?l' = recordAll (exist l) (assignments es)"
    by blast
  have d: "dom (exist l) \<subseteq> dom (exist ?l')" unfolding x by (rule recordAll_dom)
  note I = invD [OF i]
  show ?thesis
  proof (rule invI)
    show "length (heap ?l') \<le> length objs" using I(1) n by simp
  next
    fix b assume "b \<in> set (submitted (trace ?l'))"
    then have "b \<in> set (submitted (trace l)) \<or> b = a" using s t by auto
    then show "b < length (heap ?l') \<and> filterObj env (objs ! b)" using I(2) a f n by auto
  next
    fix b assume "b \<in> set (enqueued (trace ?l'))"
    then show "b < length (heap ?l') \<and> filterObj env (objs ! b)" using I(3) e t n by simp
  next
    fix b assume "b \<in> set (pendingAddrs (pending ?l'))"
    then show "b < length (heap ?l') \<and> filterObj env (objs ! b)" using I(4) p n by simp
  next
    fix b assume b: "b < length (heap ?l')"
    show "heap ?l' ! b = objs ! b \<or> hasAllOwnerReferences (exist ?l') (objs ! b)"
    proof (cases "b = a")
      case True
      with h d show ?thesis by (auto intro: hasAllOwnerReferences_mono)
    next
      case False
      with I(5) [of b] b n o [of b] d show ?thesis
        by (auto intro: hasAllOwnerReferences_mono)
    qed
  next
    fix b assume "b \<in> set (submitted (trace ?l'))"
    then have "b \<in> set (submitted (trace l)) \<or> b = a" using s t by auto
    then have "hasAllOwnerReferences (exist l) (objs ! b)" using I(6) h by auto
    then show "hasAllOwnerReferences (exist ?l') (objs ! b)"
      using d by (rule hasAllOwnerReferences_mono)
  next
    fix k b assume "b \<in> set (pendingFor (pending ?l') k)"
    then show "k \<in> uniqueKeyFromOwnerReference ` set (ownerReferences (objs ! b))"
      using I(7) p by simp
  next
    fix b r
    assume "b < length (heap ?l')" "filterObj env (objs ! b)" "r \<in> set (ownerReferences (objs ! b))"
      "exist ?l' (uniqueKeyFromOwnerReference r) = None"
    moreover from this(4) d have "exist l (uniqueKeyFromOwnerReference r) = None"
      by (auto intro: absent_mono)
    ultimately show "b \<in> set (pendingFor (pending ?l') (uniqueKeyFromOwnerReference r))"
      using I(8) [of b r] n p by simp
  next
    fix b show "count_list (pendingAddrs (pending ?l')) b \<le> length (ownerReferences (objs ! b))"
      using I(9) p by simp
  next
    show "exist ?l' = recordAll Map.empty (assignments (trace ?l'))"
      using I(10) x t by simp
  next
    show "reportedMissing (trace ?l') = []" using I(11) m t by simp
  qed
qed

lemma alloc_inv:
  assumes i: "loaderInv env objs l" and a: "length (heap l) < length objs"
    and h: "\<not> filterObj env (objs ! length (heap l))
            \<or> hasAllOwnerReferences (exist l) (objs ! length (heap l))"
  shows "loaderInv env objs (alloc (objs ! length (heap l)) l)"
proof -
  let ?l' = "alloc (objs ! length (heap l)) l"
  have u: "exist ?l' = exist l" "pending ?l' = pending l" "trace ?l' = trace l"
    "heap ?l' = heap l @ [objs ! length (heap l)]"
    by (simp_all add: alloc_def)
  note I = invD [OF i]
  show ?thesis
  proof (rule invI)
    show "length (heap ?l') \<le> length objs" using a by (simp add: u)
  next
    fix b assume "b \<in> set (submitted (trace ?l'))"
    with I(2) [of b] show "b < length (heap ?l') \<and> filterObj env (objs ! b)" by (simp add: u)
  next
    fix b assume "b \<in> set (enqueued (trace ?l'))"
    with I(3) [of b] show "b < length (heap ?l') \<and> filterObj env (objs ! b)" by (simp add: u)
  next
    fix b assume "b \<in> set (pendingAddrs (pending ?l'))"
    with I(4) [of b] show "b < length (heap ?l') \<and> filterObj env (objs ! b)" by (simp add: u)
  next
    fix b assume "b < length (heap ?l')"
    with I(5) [of b] show "heap ?l' ! b = objs ! b \<or> hasAllOwnerReferences (exist ?l') (objs ! b)"
      by (cases "b = length (heap l)") (auto simp: u nth_append)
  next
    fix b assume "b \<in> set (submitted (trace ?l'))"
    with I(6) [of b] show "hasAllOwnerReferences (exist ?l') (objs ! b)" by (simp add: u)
  next
    fix k b assume "b \<in> set (pendingFor (pending ?l') k)"
    with I(7) [of b k] show "k \<in> uniqueKeyFromOwnerReference ` set (ownerReferences (objs ! b))"
      by (simp add: u)
  next
    fix b r
    assume b: "b < length (heap ?l')" "filterObj env (objs ! b)" "r \<in> set (ownerReferences (objs ! b))"
      "exist ?l' (uniqueKeyFromOwnerReference r) = None"
    show "b \<in> set (pendingFor (pending ?l') (uniqueKeyFromOwnerReference r))"
    proof (cases "b = length (heap l)")
      case True
      with b h show ?thesis by (auto simp: u hasAllOwnerReferences_def list_all_iff)
    next
      case False
      with b I(8) [of b r] show ?thesis by (simp add: u)
    qed
  next
    fix b show "count_list (pendingAddrs (pending ?l')) b \<le> length (ownerReferences (objs ! b))"
      using I(9) by (simp add: u)
  next
    show "exist ?l' = recordAll Map.empty (assignments (trace ?l'))" using I(10) by (simp add: u)
  next
    show "reportedMissing (trace ?l') = []" using I(11) by (simp add: u)
  qed
qed

lemma logged_filtered_inv:
  assumes i: "loaderInv env objs l"
  shows "loaderInv env objs (logged (LogSkipped ''filtered'' a) l)"
proof -
  let ?l' = "logged (LogSkipped ''filtered'' a) l"
  have u: "exist ?l' = exist l" "pending ?l' = pending l" "heap ?l' = heap l"
    "submitted (trace ?l') = submitted (trace l)" "enqueued (trace ?l') = enqueued (trace l)"
    "assignments (trace ?l') = assignments (trace l)"
    "reportedMissing (trace ?l') = reportedMissing (trace l)"
    by (simp_all add: logged_def)
  from i show ?thesis unfolding loaderInv_def u .
qed

lemma in_set_count: "x \<in> set xs \<longleftrightarrow> 0 < count_list xs x"
  by (metis count_list_0_iff gr0I less_numeral_extra(3))

lemma wait_inv:
  assumes i: "loaderInv env objs l" and a: "length (heap l) < length objs"
    and f: "filterObj env (objs ! length (heap l))"
  shows "loaderInv env objs
           (snd (waitForOwners (length (heap l)) (ownerReferences (objs ! length (heap l))) True
                   (alloc (objs ! length (heap l)) l)))"
proof -
  let ?a = "length (heap l)"
  let ?refs = "ownerReferences (objs ! ?a)"
  let ?l1 = "alloc (objs ! ?a) l"
  obtain b l' where w: "waitForOwners ?a ?refs True ?l1 = (b, l')"
    by (cases "waitForOwners ?a ?refs True ?l1")
  have u: "exist ?l1 = exist l" "pending ?l1 = pending l" "trace ?l1 = trace l"
    "heap ?l1 = heap l @ [objs ! ?a]"
    by (simp_all add: alloc_def)
  from waitForOwners_summary [OF w, unfolded u] obtain es where
    x: "exist l' = exist l" and h: "heap l' = heap l @ [objs ! ?a]"
    and pf: "\<And>k. pendingFor (pending l') k = pendingFor (pending l) k
          @ replicate (length (filter (\<lambda>r. uniqueKeyFromOwnerReference r = k \<and> exist l k = None) ?refs)) ?a"
    and ct: "\<And>x. count_list (pendingAddrs (pending l')) x = count_list (pendingAddrs (pending l)) x
          + (if x = ?a then length (filter (\<lambda>r. exist l (uniqueKeyFromOwnerReference r) = None) ?refs) else 0)"
    and t: "trace l' = trace l @ es" and s: "submitted es = []" and e: "set (enqueued es) \<subseteq> {?a}"
    and m: "reportedMissing es = []" and g: "assignments es = []"
    by blast
  note I = invD [OF i]
  have fresh: "count_list (pendingAddrs (pending l)) ?a = 0"
    using I(4) [of ?a] by (auto simp: in_set_count)
  have "loaderInv env objs l'"
  proof (rule invI)
    show "length (heap l') \<le> length objs" using a by (simp add: h)
  next
    fix c assume "c \<in> set (submitted (trace l'))"
    with I(2) [of c] show "c < length (heap l') \<and> filterObj env (objs ! c)"
      by (auto simp: t s h)
  next
    fix c assume "c \<in> set (enqueued (trace l'))"
    then have "c \<in> set (enqueued (trace l)) \<or> c = ?a" using e t by auto
    with I(3) [of c] f show "c < length (heap l') \<and> filterObj env (objs ! c)"
      by (auto simp: h)
  next
    fix c assume "c \<in> set (pendingAddrs (pending l'))"
    then have "c \<in> set (pendingAddrs (pending l)) \<or> c = ?a"
      unfolding in_set_count ct by (auto split: if_splits)
    with I(4) [of c] f show "c < length (heap l') \<and> filterObj env (objs ! c)"
      by (auto simp: h)
  next
    fix c assume "c < length (heap l')"
    with I(5) [of c] show "heap l' ! c = objs ! c \<or> hasAllOwnerReferences (exist l') (objs ! c)"
      by (cases "c = ?a") (auto simp: h x nth_append)
  next
    fix c assume "c \<in> set (submitted (trace l'))"
    with I(6) [of c] show "hasAllOwnerReferences (exist l') (objs ! c)" by (simp add: t s x)
  next
    fix k c assume "c \<in> set (pendingFor (pending l') k)"
    then have "c \<in> set (pendingFor (pending l) k)
        \<or> (c = ?a \<and> filter (\<lambda>r. uniqueKeyFromOwnerReference r = k \<and> exist l k = None) ?refs \<noteq> [])"
      unfolding pf by auto
    then show "k \<in> uniqueKeyFromOwnerReference ` set (ownerReferences (objs ! c))"
    proof
      assume "c \<in> set (pendingFor (pending l) k)"
      then show ?thesis by (rule I(7))
    next
      assume c: "c = ?a \<and> filter (\<lambda>r. uniqueKeyFromOwnerReference r = k \<and> exist l k = None) ?refs \<noteq> []"
      then obtain r where "r \<in> set ?refs" "uniqueKeyFromOwnerReference r = k"
        by (auto simp: filter_empty_conv)
      with c show ?thesis by auto
    qed
  next
    fix c r
    assume c: "c < length (heap l')" "filterObj env (objs ! c)" "r \<in> set (ownerReferences (objs ! c))"
      "exist l' (uniqueKeyFromOwnerReference r) = None"
    show "c \<in> set (pendingFor (pending l') (uniqueKeyFromOwnerReference r))"
    proof (cases "c = ?a")
      case True
      with c have "r \<in> set (filter (\<lambda>r'. uniqueKeyFromOwnerReference r' = uniqueKeyFromOwnerReference r
          \<and> exist l (uniqueKeyFromOwnerReference r) = None) ?refs)"
        by (simp add: x)
      then have "0 < length (filter (\<lambda>r'. uniqueKeyFromOwnerReference r' = uniqueKeyFromOwnerReference r
          \<and> exist l (uniqueKeyFromOwnerReference r) = None) ?refs)"
        by (metis length_pos_if_in_set)
      with True show ?thesis unfolding pf by simp
    next
      case False
      with c I(8) [of c r] show ?thesis unfolding pf by (simp add: h x)
    qed
  next
    fix c show "count_list (pendingAddrs (pending l')) c \<le> length (ownerReferences (objs ! c))"
    proof (cases "c = ?a")
      case True
      have "length (filter (\<lambda>r. exist l (uniqueKeyFromOwnerReference r) = None) ?refs) \<le> length ?refs"
        by (rule length_filter_le)
      with True fresh show ?thesis unfolding ct by simp
    next
      case False
      with I(9) [of c] show ?thesis unfolding ct by simp
    qed
  next
    show "exist l' = recordAll Map.empty (assignments (trace l'))" using I(10) by (simp add: x t g)
  next
    show "reportedMissing (trace l') = []" using I(11) by (simp add: t m)
  qed
  with w show ?thesis by simp
qed

lemma discard_inv:
  assumes i: "loaderInv env objs l" and k: "exist l key \<noteq> None"
  shows "loaderInv env objs (l\<lparr>pending := AList.delete key (pending l)\<rparr>)"
proof -
  let ?l' = "l\<lparr>pending := AList.delete key (pending l)\<rparr>"
  note I = invD [OF i]
  have sub: "c \<in> set (pendingAddrs (pending l))" if "c \<in> set (pendingAddrs (pending ?l'))" for c
    using that pendingAddrs_delete [of key "pending l" c] by (simp add: in_set_count)
  show ?thesis
  proof (rule invI)
    show "length (heap ?l') \<le> length objs" using I(1) by simp
  next
    fix c assume "c \<in> set (submitted (trace ?l'))"
    with I(2) [of c] show "c < length (heap ?l') \<and> filterObj env (objs ! c)" by simp
  next
    fix c assume "c \<in> set (enqueued (trace ?l'))"
    with I(3) [of c] show "c < length (heap ?l') \<and> filterObj env (objs ! c)" by simp
  next
    fix c assume "c \<in> set (pendingAddrs (pending ?l'))"
    from I(4) [OF sub [OF this]] show "c < length (heap ?l') \<and> filterObj env (objs ! c)" by simp
  next
    fix c assume "c < length (heap ?l')"
    with I(5) [of c] show "heap ?l' ! c = objs ! c \<or> hasAllOwnerReferences (exist ?l') (objs ! c)"
      by simp
  next
    fix c assume "c \<in> set (submitted (trace ?l'))"
    with I(6) [of c] show "hasAllOwnerReferences (exist ?l') (objs ! c)" by simp
  next
    fix k' c assume "c \<in> set (pendingFor (pending ?l') k')"
    then have "c \<in> set (pendingFor (pending l) k')"
      by (simp add: pendingFor_delete split: if_splits)
    then show "k' \<in> uniqueKeyFromOwnerReference ` set (ownerReferences (objs ! c))" by (rule I(7))
  next
    fix c r
    assume c: "c < length (heap ?l')" "filterObj env (objs ! c)" "r \<in> set (ownerReferences (objs ! c))"
      "exist ?l' (uniqueKeyFromOwnerReference r) = None"
    with k have "uniqueKeyFromOwnerReference r \<noteq> key" by auto
    with c I(8) [of c r] show "c \<in> set (pendingFor (pending ?l') (uniqueKeyFromOwnerReference r))"
      by (simp add: pendingFor_delete)
  next
    fix c show "count_list (pendingAddrs (pending ?l')) c \<le> length (ownerReferences (objs ! c))"
      using I(9) [of c] pendingAddrs_delete [of key "pending l" c] by simp
  next
    show "exist ?l' = recordAll Map.empty (assignments (trace ?l'))" using I(10) by simp
  next
    show "reportedMissing (trace ?l') = []" using I(11) by simp
  qed
qed

lemma dependent_ready:
  assumes i: "loaderInv env objs l" and k: "exist l key \<noteq> None"
    and a: "a \<in> set (pendingFor (pending l) key)"
    and r: "length (ownerReferences (heap l ! a)) = 1 \<or> hasAllOwnerReferences (exist l) (heap l ! a)"
  shows "a < length (heap l) \<and> filterObj env (objs ! a) \<and> hasAllOwnerReferences (exist l) (objs ! a)"
proof -
  note I = invD [OF i]
  from a have "a \<in> set (pendingAddrs (pending l))" by (rule pendingFor_in_pendingAddrs)
  then have v: "a < length (heap l)" "filterObj env (objs ! a)" using I(4) by auto
  have "hasAllOwnerReferences (exist l) (objs ! a)"
  proof (cases "heap l ! a = objs ! a")
    case False
    with I(5) [OF v(1)] show ?thesis by simp
  next
    case True
    show ?thesis
    proof (cases "hasAllOwnerReferences (exist l) (objs ! a)")
      case False
      with r True have "length (ownerReferences (objs ! a)) = 1" by simp
      then obtain r' where one: "ownerReferences (objs ! a) = [r']"
        by (cases "ownerReferences (objs ! a)") auto
      with I(7) [OF a] have "uniqueKeyFromOwnerReference r' = key" by auto
      with k one show ?thesis by (simp add: hasAllOwnerReferences_def)
    qed simp
  qed
  with v show ?thesis by simp
qed

lemma step_inv:
  assumes "step env objs l l'" and "loaderInv env objs l"
  shows "loaderInv env objs l'"
  using assms
proof (cases rule: step.cases)
  case skip
  with assms(2) show ?thesis by (auto intro!: logged_filtered_inv alloc_inv)
next
  case wait
  with assms(2) show ?thesis by (auto intro!: wait_inv)
next
  case fresh
  let ?l1 = "alloc (objs ! length (heap l)) l"
  from fresh assms(2) have "loaderInv env objs ?l1" by (auto intro!: alloc_inv)
  moreover have "length (heap l) < length (heap ?l1)" "exist ?l1 = exist l"
    by (simp_all add: alloc_def)
  ultimately show ?thesis using fresh by (auto intro!: recordApplied_inv)
next
  case (dependent key a)
  from dependent_ready [OF assms(2) dependent(2,3,4)] assms(2) dependent(1)
  show ?thesis by (auto intro!: recordApplied_inv)
next
  case (discard key)
  with assms(2) show ?thesis by (auto intro!: discard_inv)
qed

lemma steps_inv:
  "(step env objs)\<^sup>*\<^sup>* l l' \<Longrightarrow> loaderInv env objs l \<Longrightarrow> loaderInv env objs l'"
  by (induction rule: rtranclp_induct) (auto intro: step_inv)






lemma report_projections:
  "submitted (missingOwnerReport p) = []" "enqueued (missingOwnerReport p) = []"
  "assignments (missingOwnerReport p) = []" "submissions (missingOwnerReport p) = []"
  "reportedMissing (missingOwnerReport p) = pendingAddrs p"
proof -
  have r: "missingOwnerReport p = map (LogSkipped ''missing owner'') (pendingAddrs p)"
    by (induction p) (auto simp: missingOwnerReport_def pendingAddrs_def)
  have "submitted (map (LogSkipped ''missing owner'') xs) = []"
    "enqueued (map (LogSkipped ''missing owner'') xs) = []"
    "assignments (map (LogSkipped ''missing owner'') xs) = []"
    "submissions (map (LogSkipped ''missing owner'') xs) = []"
    "reportedMissing (map (LogSkipped ''missing owner'') xs) = xs" for xs
    by (induction xs) simp_all
  then show "submitted (missingOwnerReport p) = []" "enqueued (missingOwnerReport p) = []"
    "assignments (missingOwnerReport p) = []" "submissions (missingOwnerReport p) = []"
    "reportedMissing (missingOwnerReport p) = pendingAddrs p"
    unfolding r by simp_all
qed


lemma Load_inv:
  assumes "Load env docs (newLoader c) = (r, l')"
  obtains l where "loaderInv env (decoded docs) l"
    and "(step env (decoded docs))\<^sup>*\<^sup>* (newLoader c) l"
    and "exist l' = exist l" and "pending l' = pending l" and "heap l' = heap l"
    and "submitted (trace l') = submitted (trace l)"
    and "enqueued (trace l') = enqueued (trace l)"
    and "assignments (trace l') = assignments (trace l)"
    and "submissions (trace l') = submissions (trace l)"
    and "r = None \<Longrightarrow> reportedMissing (trace l') = pendingAddrs (pending l)"
proof -
  from Load_steps [OF assms] obtain l where
    s: "(step env (decoded docs))\<^sup>*\<^sup>* (newLoader c) l"
    and l: "case r of Some err \<Rightarrow> l' = l
              | None \<Rightarrow> l' = l\<lparr>trace := trace l @ missingOwnerReport (pending l)\<rparr>"
    by blast
  from steps_inv [OF s inv_newLoader] have i: "loaderInv env (decoded docs) l" .
  show ?thesis
  proof (rule that [OF i s])
    show "exist l' = exist l" "pending l' = pending l" "heap l' = heap l"
      using l by (cases r; simp)+
    show "submitted (trace l') = submitted (trace l)" "enqueued (trace l') = enqueued (trace l)"
      "assignments (trace l') = assignments (trace l)"
      "submissions (trace l') = submissions (trace l)"
      using l by (cases r; simp add: report_projections)+
    show "reportedMissing (trace l') = pendingAddrs (pending l)" if "r = None"
      using l that invD(11) [OF i] by (simp add: report_projections)
  qed
qed



subsection \<open>Filtering\<close>

text \<open>
  C5. An object of the stream whose group and kind are not in the filter set is never
  handed to the write client, in a create or in an update, is never inserted into the
  pending map, and is not in the pending map at the end, whatever owner references it
  has.
\<close>

theorem filtered_object_never_submitted_nor_queued:
  assumes "Load env docs (newLoader c) = (r, l)"
    and "a < length (decoded docs)"
    and "\<not> filterObj env (decoded docs ! a)"
  shows "a \<notin> set (submitted (trace l)) \<and> a \<notin> set (enqueued (trace l))
         \<and> a \<notin> set (pendingAddrs (pending l))"
proof -
  from assms(1) obtain l0 where i: "loaderInv env (decoded docs) l0"
    and e: "pending l = pending l0" "submitted (trace l) = submitted (trace l0)"
      "enqueued (trace l) = enqueued (trace l0)"
    by (rule Load_inv)
  from invD(2,3,4) [OF i, of a] assms(3) show ?thesis unfolding e by blast
qed

theorem filtered_object_never_submitted_nor_queued_witness:
  "0 \<notin> set (submitted (trace (snd (Load exampleEnv [Document objS, Document objA] (newLoader [])))))
   \<and> 0 \<notin> set (enqueued (trace (snd (Load exampleEnv [Document objS, Document objA] (newLoader [])))))
   \<and> 0 \<notin> set (pendingAddrs (pending (snd (Load exampleEnv [Document objS, Document objA] (newLoader [])))))"
proof -
  have run: "Load exampleEnv [Document objS, Document objA] (newLoader [])
      = (fst (Load exampleEnv [Document objS, Document objA] (newLoader [])),
         snd (Load exampleEnv [Document objS, Document objA] (newLoader [])))"
    by simp
  have there: "0 < length (decoded [Document objS, Document objA])" by simp
  have out: "\<not> filterObj exampleEnv (decoded [Document objS, Document objA] ! 0)"
    by (simp add: filterObj_def exampleEnv_def groupKindOf_def objS_def exampleObj_def)
  from filtered_object_never_submitted_nor_queued [OF run there out] show ?thesis .
qed

subsection \<open>Unresolved owners\<close>




subsection \<open>The map of recorded keys\<close>










section \<open>The cache: properties\<close>

text \<open>
  C3. \<open>Get\<close> runs the conversion function only when the version it read differs from
  \<open>currentVer\<close> both under the read lock and again under the write lock. If the versions
  agree at the first check it returns the stored value and leaves the getter as it saw
  it; if they agree at the second check it returns the value stored by then and leaves
  that getter unchanged; in both cases the conversion function is not called.
\<close>

theorem Get_converts_only_when_stale_at_both_checks:
  "(latestVer = currentVer c \<longrightarrow> Get f latestVer list c c' = (data c, c, []))
   \<and> (latestVer \<noteq> currentVer c \<and> latestVer = currentVer c' \<longrightarrow>
        Get f latestVer list c c' = (data c', c', []))
   \<and> (latestVer \<noteq> currentVer c \<and> latestVer \<noteq> currentVer c' \<longrightarrow>
        Get f latestVer list c c' = (f list, c'\<lparr>data := f list, currentVer := latestVer\<rparr>, [list]))"
  by (simp add: Get_def updateAndReturn_def Let_def)

theorem Get_converts_only_when_stale_at_both_checks_witness:
  "Get length ''v2'' [True, False] \<lparr>currentVer = ''v2'', data = 7\<rparr> \<lparr>currentVer = ''v1'', data = 0\<rparr>
      = (7, \<lparr>currentVer = ''v2'', data = 7\<rparr>, [])
   \<and> Get length ''v2'' [True, False] \<lparr>currentVer = ''v1'', data = 0\<rparr> \<lparr>currentVer = ''v2'', data = 7\<rparr>
      = (7, \<lparr>currentVer = ''v2'', data = 7\<rparr>, [])
   \<and> Get length ''v2'' [True, False] \<lparr>currentVer = ''v1'', data = 0\<rparr> \<lparr>currentVer = ''v1'', data = 0\<rparr>
      = (2, \<lparr>currentVer = ''v2'', data = 2\<rparr>, [[True, False]])"
  using Get_converts_only_when_stale_at_both_checks
          [where latestVer = "''v2''" and f = length and list = "[True, False]"
             and c = "\<lparr>currentVer = ''v2'', data = 7\<rparr>" and c' = "\<lparr>currentVer = ''v1'', data = 0::nat\<rparr>"]
        Get_converts_only_when_stale_at_both_checks
          [where latestVer = "''v2''" and f = length and list = "[True, False]"
             and c = "\<lparr>currentVer = ''v1'', data = 0\<rparr>" and c' = "\<lparr>currentVer = ''v2'', data = 7::nat\<rparr>"]
        Get_converts_only_when_stale_at_both_checks
          [where latestVer = "''v2''" and f = length and list = "[True, False]"
             and c = "\<lparr>currentVer = ''v1'', data = 0\<rparr>" and c' = "\<lparr>currentVer = ''v1'', data = 0::nat\<rparr>"]
  by simp

subsection \<open>Concurrent calls\<close>

text \<open>
  While the calls all carry the version \<open>v\<close>, either \<open>currentVer\<close> is not \<open>v\<close> and
  nothing has been converted since the start, or it is \<open>v\<close> and one conversion has
  run; a call has returned only in the second case.
\<close>

lemma stepCall_once:
  assumes "stepCall f c w = (c', w')"
    and "c = AtRLock v \<or> c = AtLock v \<or> (hasReturned c \<and> currentVer (getter w) = v)"
    and "(currentVer (getter w) \<noteq> v \<and> conversions w = n)
         \<or> (currentVer (getter w) = v \<and> conversions w = Suc n)"
  shows "(c' = AtRLock v \<or> c' = AtLock v \<or> (hasReturned c' \<and> currentVer (getter w') = v))
     \<and> ((currentVer (getter w') \<noteq> v \<and> conversions w' = n)
         \<or> (currentVer (getter w') = v \<and> conversions w' = Suc n))
     \<and> (currentVer (getter w) = v \<longrightarrow> currentVer (getter w') = v)"
  using assms
  by (cases c) (auto simp: hasReturned_def updateAndReturn_def Let_def split: if_splits)

lemma run_once:
  assumes "run f sched (calls, w) = (calls', w')"
    and "\<forall>c \<in> set calls. c = AtRLock v \<or> c = AtLock v \<or> (hasReturned c \<and> currentVer (getter w) = v)"
    and "(currentVer (getter w) \<noteq> v \<and> conversions w = n)
         \<or> (currentVer (getter w) = v \<and> conversions w = Suc n)"
  shows "length calls' = length calls
     \<and> (\<forall>c \<in> set calls'. c = AtRLock v \<or> c = AtLock v \<or> (hasReturned c \<and> currentVer (getter w') = v))
     \<and> ((currentVer (getter w') \<noteq> v \<and> conversions w' = n)
         \<or> (currentVer (getter w') = v \<and> conversions w' = Suc n))"
  using assms
proof (induction sched arbitrary: calls w)
  case Nil
  then show ?case by simp
next
  case (Cons act sched)
  show ?case
  proof (cases act)
    case (Feed xs)
    from Cons.prems(1) have r: "run f sched (calls, w\<lparr>store := xs\<rparr>) = (calls', w')"
      by (simp add: Feed)
    from Cons.IH [OF r] Cons.prems(2,3) show ?thesis by simp
  next
    case (Run i)
    show ?thesis
    proof (cases "i < length calls")
      case False
      with Cons.prems(1) Run have "run f sched (calls, w) = (calls', w')" by simp
      from Cons.IH [OF this Cons.prems(2,3)] show ?thesis .
    next
      case True
      obtain c1 w1 where s: "stepCall f (calls ! i) w = (c1, w1)"
        by (cases "stepCall f (calls ! i) w")
      with Cons.prems(1) Run True have r: "run f sched (calls[i := c1], w1) = (calls', w')"
        by simp
      from True Cons.prems(2) have ci: "calls ! i = AtRLock v \<or> calls ! i = AtLock v
          \<or> (hasReturned (calls ! i) \<and> currentVer (getter w) = v)"
        by (metis nth_mem)
      note st = stepCall_once [OF s ci Cons.prems(3)]
      have all: "\<forall>c \<in> set (calls[i := c1]). c = AtRLock v \<or> c = AtLock v
          \<or> (hasReturned c \<and> currentVer (getter w1) = v)"
      proof
        fix c assume "c \<in> set (calls[i := c1])"
        then have "c = c1 \<or> c \<in> set calls" by (metis insert_iff set_update_subset_insert subsetD)
        with st Cons.prems(2) show "c = AtRLock v \<or> c = AtLock v
            \<or> (hasReturned c \<and> currentVer (getter w1) = v)"
          by blast
      qed
      from Cons.IH [OF r all] st show ?thesis by simp
    qed
  qed
qed

text \<open>
  C4. N calls of \<open>Get\<close>, N at least one, have all read the same version, which is not
  the version of the stored value. Their locked sections run in any order, mixed with
  updates of the store by the feed. When all of them have returned, the conversion
  function has been executed exactly once.
\<close>

theorem concurrent_Gets_convert_once:
  assumes "0 < N" and "latestVer \<noteq> currentVer (getter w)" and "conversions w = 0"
    and "run convertFunc sched (replicate N (AtRLock latestVer), w) = (calls, w')"
    and "list_all hasReturned calls"
  shows "conversions w' = 1"
proof -
  have start: "\<forall>c \<in> set (replicate N (AtRLock latestVer)).
      c = AtRLock latestVer \<or> c = AtLock latestVer
      \<or> (hasReturned c \<and> currentVer (getter w) = latestVer)"
    by simp
  have stale: "(currentVer (getter w) \<noteq> latestVer \<and> conversions w = 0)
      \<or> (currentVer (getter w) = latestVer \<and> conversions w = Suc 0)"
    using assms(2,3) by simp
  note all = run_once [OF assms(4) start stale]
  note r = all [THEN conjunct1] all [THEN conjunct2, THEN conjunct1]
    all [THEN conjunct2, THEN conjunct2]
  from r(1) assms(1) obtain c where c: "c \<in> set calls" by (cases calls) auto
  with assms(5) have "hasReturned c" by (simp add: list_all_iff)
  with r(2) c have "currentVer (getter w') = latestVer" by (auto simp: hasReturned_def)
  with r(3) show ?thesis by simp
qed

theorem concurrent_Gets_convert_once_witness:
  "conversions (snd (run length exampleSchedule (replicate 2 (AtRLock ''v2''), exampleShared))) = 1"
proof -
  have n: "0 < (2::nat)" by simp
  have stale: "''v2'' \<noteq> currentVer (getter exampleShared)" by (simp add: exampleShared_def)
  have none: "conversions exampleShared = 0" by (simp add: exampleShared_def)
  have run: "run length exampleSchedule (replicate 2 (AtRLock ''v2''), exampleShared)
      = (fst (run length exampleSchedule (replicate 2 (AtRLock ''v2''), exampleShared)),
         snd (run length exampleSchedule (replicate 2 (AtRLock ''v2''), exampleShared)))"
    by simp
  have two: "replicate 2 (AtRLock ''v2'') = [AtRLock ''v2'', AtRLock ''v2'']"
    by (simp add: numeral_2_eq_2)
  have returned: "list_all hasReturned
      (fst (run length exampleSchedule (replicate 2 (AtRLock ''v2''), exampleShared)))"
    unfolding two
    by (simp add: exampleSchedule_def exampleShared_def hasReturned_def updateAndReturn_def)
  from concurrent_Gets_convert_once [OF n stale none run returned] show ?thesis .
qed

end
